theory Spec2Isabelle
  imports Main
begin

section \<open>Strings and errors\<close>

text \<open>
  A Python \<open>str\<close> is modelled as a \<open>string\<close>: a list of characters, each a code point
  below 256. Every \<open>raise\<close> of \<open>pylib/components.py\<close>, and every exception of a
  library call that the file lets escape, is a constructor of \<open>error\<close> that carries the
  arguments of the message's \<open>format\<close> call.
\<close>

datatype error =
    SchemaNoName string
      \<comment> \<open>\<open>_SchemaFormatError('A schema entry under "{}" does not contain a name attribute'.format(path))\<close>\<close>
  | SchemaConflict string string
      \<comment> \<open>\<open>_SchemaFormatError('Unable to merge two schemas: the entry {}.{} is present in both
          schemas, but ...'.format(path, name))\<close>\<close>
  | TypedefNoSemicolon string
      \<comment> \<open>\<open>Exception("Expect a typedef line to end with ';' ({})".format(l))\<close>\<close>
  | TypedefNoKeyword
      \<comment> \<open>\<open>Exception("Expect typedef line to startwith 'typedef'")\<close>\<close>
  | MissingSection string string
      \<comment> \<open>\<open>Exception("Couldn't find expected section '{}' in file: '{}'".format(s, fn))\<close>\<close>
  | FindFailed string "string list"
      \<comment> \<open>\<open>KeyError('Unable to find component "{}" in {}'.format(partial_path, paths))\<close>\<close>
  | ComponentNotFound string
      \<comment> \<open>\<open>KeyError('Unable to find component "{}"'.format(self._resource_name))\<close>\<close>
  | ArchComponentNotFound string string
      \<comment> \<open>\<open>KeyError('Unable to find component "{}" for architecture {}'.format(self._resource_name, arch.name))\<close>\<close>
  | IndexError
      \<comment> \<open>\<open>parts[0]\<close> on an empty list\<close>
  | KeyError string
      \<comment> \<open>a dictionary lookup \<open>d[k]\<close> with \<open>k\<close> absent\<close>
  | ValueError
      \<comment> \<open>\<open>list.remove(x)\<close> with \<open>x\<close> not in the list\<close>
  | AssertionError
  | OpenFailed string
      \<comment> \<open>\<open>open(fn)\<close> fails\<close>
  | RenderFailed string
      \<comment> \<open>the templating engine raises (strict mode: a tag without a value)\<close>
  | XmlParseFailed string
      \<comment> \<open>\<open>xml.etree.ElementTree.fromstring\<close> raises\<close>

abbreviation newline :: char where
  "newline \<equiv> CHR 0x0A"

text \<open>\<open>str.isspace\<close> on one character, for the code points below 256.\<close>

definition is_space :: "char \<Rightarrow> bool" where
  "is_space c \<longleftrightarrow>
     c \<in> set [CHR 0x09, CHR 0x0A, CHR 0x0B, CHR 0x0C, CHR 0x0D, CHR 0x1C, CHR 0x1D, CHR 0x1E,
               CHR 0x1F, CHR 0x20, CHR 0x85, CHR 0xA0]"

text \<open>\<open>s.split()\<close>: the maximal runs of characters that are not whitespace. The first
  argument is the run read so far.\<close>

fun split_ws :: "string \<Rightarrow> string \<Rightarrow> string list" where
  "split_ws w [] = (if w = [] then [] else [w])"
| "split_ws w (c # cs) =
     (if is_space c then (if w = [] then split_ws [] cs else w # split_ws [] cs)
      else split_ws (w @ [c]) cs)"

definition py_split :: "string \<Rightarrow> string list" where
  "py_split s = split_ws [] s"

text \<open>\<open>s.split(d)\<close> for a separator of one character: never the empty list.\<close>

fun split_on :: "char \<Rightarrow> string \<Rightarrow> string \<Rightarrow> string list" where
  "split_on d w [] = [w]"
| "split_on d w (c # cs) = (if c = d then w # split_on d [] cs else split_on d (w @ [c]) cs)"

definition py_split_on :: "char \<Rightarrow> string \<Rightarrow> string list" where
  "py_split_on d s = split_on d [] s"

text \<open>\<open>sep.join(xs)\<close>.\<close>

fun join :: "string \<Rightarrow> string list \<Rightarrow> string" where
  "join sep [] = []"
| "join sep [x] = x"
| "join sep (x # y # ys) = x @ sep @ join sep (y # ys)"

text \<open>\<open>s.rstrip()\<close> and \<open>s.strip()\<close>.\<close>

definition rstrip :: "string \<Rightarrow> string" where
  "rstrip s = rev (dropWhile is_space (rev s))"

definition strip :: "string \<Rightarrow> string" where
  "strip s = rstrip (dropWhile is_space s)"

definition startswith :: "string \<Rightarrow> string \<Rightarrow> bool" where
  "startswith p s \<longleftrightarrow> take (length p) s = p"

definition endswith :: "string \<Rightarrow> string \<Rightarrow> bool" where
  "endswith p s \<longleftrightarrow> length p \<le> length s \<and> drop (length s - length p) s = p"

section \<open>The typedef sorter: \<open>sort_typedefs\<close>\<close>

text \<open>A parsed line is the pair \<open>(new_type, old_type)\<close>.\<close>

type_synonym typedef_pair = "string \<times> string"

text \<open>The body of the first loop for one line that is not empty.\<close>

definition parse_typedef_line :: "string \<Rightarrow> error + typedef_pair" where
  "parse_typedef_line l =
     (if \<not> endswith '';'' l then Inl (TypedefNoSemicolon l)
      else (case py_split (butlast l) of
              [] \<Rightarrow> Inl IndexError
            | p # ps \<Rightarrow>
                if p \<noteq> ''typedef'' then Inl TypedefNoKeyword
                else Inr (last (p # ps), join '' '' (butlast ps))))"

fun parse_typedefs :: "string list \<Rightarrow> typedef_pair list \<Rightarrow> error + typedef_pair list" where
  "parse_typedefs [] typedefs = Inr typedefs"
| "parse_typedefs (l # ls) typedefs =
     (if l = [] then parse_typedefs ls typedefs
      else (case parse_typedef_line l of
              Inl e \<Rightarrow> Inl e
            | Inr p \<Rightarrow> parse_typedefs ls (typedefs @ [p])))"

text \<open>
  The two \<open>for (new, old) in typedefs[:]\<close> loops run over a copy of the pending list
  (first argument of \<open>move_loop\<close>) and change the state \<open>(r, typedefs)\<close>: a pair that
  passes the test is appended to \<open>r\<close>, and \<open>typedefs.remove\<close> deletes the first equal
  entry of the pending list.
\<close>

fun move_loop :: "(typedef_pair \<Rightarrow> bool) \<Rightarrow> typedef_pair list \<Rightarrow>
    typedef_pair list \<times> typedef_pair list \<Rightarrow> typedef_pair list \<times> typedef_pair list" where
  "move_loop test [] (r, typedefs) = (r, typedefs)"
| "move_loop test (p # copy) (r, typedefs) =
     (if test p then move_loop test copy (r @ [p], remove1 p typedefs)
      else move_loop test copy (r, typedefs))"

definition first_pass :: "string list \<Rightarrow> typedef_pair list \<Rightarrow>
    typedef_pair list \<times> typedef_pair list" where
  "first_pass new_types typedefs =
     move_loop (\<lambda>(new, old). old \<notin> set new_types) typedefs ([], typedefs)"

definition unlock :: "string \<Rightarrow> typedef_pair list \<Rightarrow> typedef_pair list \<Rightarrow>
    typedef_pair list \<times> typedef_pair list" where
  "unlock check_type r typedefs =
     move_loop (\<lambda>(new, old). old = check_type) typedefs (r, typedefs)"

lemma move_loop_filter_gen:
  "\<forall>x \<in> set pre. \<not> test x \<Longrightarrow>
   move_loop test ts (r, pre @ ts) = (r @ filter test ts, pre @ filter (\<lambda>x. \<not> test x) ts)"
proof (induction ts arbitrary: r pre)
  case Nil
  then show ?case by simp
next
  case (Cons t ts)
  show ?case
  proof (cases "test t")
    case True
    have "remove1 t (pre @ t # ts) = pre @ ts"
      using Cons.prems True by (auto simp: remove1_append)
    with True Cons.IH [OF Cons.prems, of "r @ [t]"] show ?thesis by simp
  next
    case False
    have "\<forall>x \<in> set (pre @ [t]). \<not> test x" using Cons.prems False by simp
    from Cons.IH [OF this, of r] False show ?thesis by simp
  qed
qed

lemma move_loop_filter:
  "move_loop test ts (r, ts) = (r @ filter test ts, filter (\<lambda>x. \<not> test x) ts)"
  using move_loop_filter_gen [of "[]" test ts r] by simp

lemma unlock_length:
  "unlock c r ts = (r', ts') \<Longrightarrow> length r' + length ts' = length r + length ts"
  using sum_length_filter_compl [of "\<lambda>(new, old). old = c" ts]
  by (auto simp: unlock_def move_loop_filter case_prod_beta)

text \<open>The \<open>while i < len(r)\<close> loop.\<close>

function expand :: "nat \<Rightarrow> typedef_pair list \<Rightarrow> typedef_pair list \<Rightarrow> typedef_pair list" where
  "expand i r typedefs =
     (if i < length r
      then (case unlock (fst (r ! i)) r typedefs of (r', typedefs') \<Rightarrow> expand (Suc i) r' typedefs')
      else r)"
  by pat_completeness auto
termination
  apply (relation "measure (\<lambda>(i, r, ts). length r + length ts - i)")
   apply simp
  apply (drule sym)
  apply (drule unlock_length)
  apply simp
  done

definition format_typedef :: "typedef_pair \<Rightarrow> string" where
  "format_typedef p = ''typedef '' @ snd p @ '' '' @ fst p @ '';''"

text \<open>The order of the pairs that \<open>sort_typedefs\<close> computes from the parsed lines.\<close>

definition sort_pairs :: "typedef_pair list \<Rightarrow> typedef_pair list" where
  "sort_pairs typedefs =
     (case first_pass (map fst typedefs) typedefs of (r, pending) \<Rightarrow> expand 0 r pending)"

definition sort_typedefs :: "string \<Rightarrow> error + string" where
  "sort_typedefs typedef_lines =
     (case parse_typedefs (py_split_on newline typedef_lines) [] of
        Inl e \<Rightarrow> Inl e
      | Inr typedefs \<Rightarrow> Inr (join [newline] (map format_typedef (sort_pairs typedefs))))"

declare expand.simps [simp del]

subsection \<open>Notions used in the statements about the sorter\<close>

text \<open>A token of \<open>split()\<close>: not empty, no whitespace. A parsed pair has a token as its new
  name and tokens joined by single blanks as its old type.\<close>

definition token :: "string \<Rightarrow> bool" where
  "token w \<longleftrightarrow> w \<noteq> [] \<and> (\<forall>c \<in> set w. \<not> is_space c)"

definition wf_pair :: "typedef_pair \<Rightarrow> bool" where
  "wf_pair p \<longleftrightarrow> token (fst p) \<and> (\<exists>toks. (\<forall>t \<in> set toks. token t) \<and> snd p = join '' '' toks)"


text \<open>The pairs that the two passes can place: a base case (its old type is not a new name of
  the block), or a pair whose old type is the new name of a pair that can be placed.\<close>

inductive_set reachable :: "typedef_pair list \<Rightarrow> typedef_pair set" for ps :: "typedef_pair list" where
  base: "p \<in> set ps \<Longrightarrow> snd p \<notin> fst ` set ps \<Longrightarrow> p \<in> reachable ps"
| unlocked: "p \<in> reachable ps \<Longrightarrow> q \<in> set ps \<Longrightarrow> snd q = fst p \<Longrightarrow> q \<in> reachable ps"


text \<open>Every placed pair is a base case or comes after a pair that defines its old type, and
  after every copy of that pair.\<close>

definition placed_ok :: "string set \<Rightarrow> typedef_pair list \<Rightarrow> bool" where
  "placed_ok N r \<longleftrightarrow>
     (\<forall>k < length r. snd (r ! k) \<notin> N
        \<or> (\<exists>m < k. fst (r ! m) = snd (r ! k) \<and> (\<forall>j < length r. r ! j = r ! m \<longrightarrow> j < k)))"

text \<open>No new name of the block has two old types; a line may be repeated.\<close>

definition one_type :: "typedef_pair list \<Rightarrow> bool" where
  "one_type typedefs \<longleftrightarrow>
     (\<forall>p \<in> set typedefs. \<forall>q \<in> set typedefs. fst p = fst q \<longrightarrow> snd p = snd q)"


section \<open>The collaborators of the module\<close>

text \<open>
  A configuration is a dictionary from strings to values of any kind. The file system, the
  path helper of \<open>pylib/utils.py\<close>, the templating engine, \<open>str.upper\<close> and the XML
  library are not part of \<open>pylib/components.py\<close>: the model takes them as the fields of an
  environment.
\<close>

type_synonym 'v config = "string \<rightharpoonup> 'v"

datatype elem =
  Element (tag: string) (attrib: "(string \<times> string) list") (etext: string) (children: "elem list")

record 'v env =
  base_to_top_paths :: "string \<Rightarrow> string \<Rightarrow> string \<Rightarrow> string list"
    \<comment> \<open>\<open>utils.base_to_top_paths(topdir, 'components', partial_path)\<close>\<close>
  path_exists :: "string \<Rightarrow> bool"
    \<comment> \<open>\<open>os.path.exists\<close>\<close>
  readlines :: "string \<Rightarrow> string list option"
    \<comment> \<open>\<open>open(fn).readlines()\<close>; \<open>None\<close> when \<open>open\<close> raises\<close>
  pystache_render :: "string \<Rightarrow> 'v config \<Rightarrow> string \<Rightarrow> error + string"
    \<comment> \<open>\<open>pystache.render(in_data, config, name=name)\<close> with strict missing tags\<close>
  str_upper :: "string \<Rightarrow> string"
    \<comment> \<open>\<open>str.upper\<close>\<close>
  xml_fromstring :: "string \<Rightarrow> error + elem"
    \<comment> \<open>\<open>xml.etree.ElementTree.fromstring\<close>\<close>
  xml_tostring :: "elem \<Rightarrow> string"
    \<comment> \<open>\<open>xml.etree.ElementTree.tostring(e).decode()\<close>\<close>

text \<open>A dictionary whose order of insertion is observed is a list of pairs with distinct keys;
  \<open>dict_set\<close> is \<open>d[k] = v\<close>.\<close>

fun dict_set :: "'k \<Rightarrow> 'a \<Rightarrow> ('k \<times> 'a) list \<Rightarrow> ('k \<times> 'a) list" where
  "dict_set k v [] = [(k, v)]"
| "dict_set k v ((k', v') # d) = (if k = k' then (k, v) # d else (k', v') # dict_set k v d)"

section \<open>The sectioned-file parser: \<open>_parse_sectioned_file\<close>\<close>

definition REQUIRED_COMPONENT_SECTIONS :: "string list" where
  "REQUIRED_COMPONENT_SECTIONS =
     [''public_headers'', ''public_type_definitions'', ''public_structure_definitions'',
      ''public_object_like_macros'', ''public_function_like_macros'',
      ''public_extern_definitions'', ''public_function_definitions'', ''headers'',
      ''object_like_macros'', ''type_definitions'', ''structure_definitions'',
      ''extern_definitions'', ''function_definitions'', ''state'', ''function_like_macros'',
      ''functions'', ''public_functions'']"

definition render_data :: "'v env \<Rightarrow> string \<Rightarrow> string \<Rightarrow> 'v config \<Rightarrow> error + string" where
  "render_data env in_data name config = pystache_render env in_data config name"

definition is_marker :: "string \<Rightarrow> bool" where
  "is_marker line \<longleftrightarrow> startswith ''/*|'' line \<and> endswith ''|*/'' line"

text \<open>\<open>line[3:-3].strip()\<close>.\<close>

definition marker_section :: "string \<Rightarrow> string" where
  "marker_section line = strip (drop 3 (take (length line - 3) line))"

text \<open>
  The scan of the lines. \<open>current_lines\<close> is \<open>None\<close> or the list object that the last marker
  bound to \<open>sections[section]\<close>; the model keeps the name of that section instead, and
  \<open>current_lines.append(line)\<close> extends the list bound to that name.
\<close>

definition append_line :: "string \<Rightarrow> string \<Rightarrow> (string \<times> string list) list \<Rightarrow>
    (string \<times> string list) list" where
  "append_line section line sections =
     map (\<lambda>(k, v). if k = section then (k, v @ [line]) else (k, v)) sections"

fun scan_lines :: "string list \<Rightarrow> (string \<times> string list) list \<times> string option \<Rightarrow>
    (string \<times> string list) list \<times> string option" where
  "scan_lines [] (sections, current) = (sections, current)"
| "scan_lines (l # ls) (sections, current) =
     (let line = rstrip l in
      if is_marker line
      then (let section = marker_section line
            in scan_lines ls (dict_set section [] sections, Some section))
      else (case current of
              None \<Rightarrow> scan_lines ls (sections, None)
            | Some section \<Rightarrow> scan_lines ls (append_line section line sections, current)))"

text \<open>The loop over \<open>sections.items()\<close> that renders every section, in the order of the
  dictionary; the first failure of the engine ends it.\<close>

fun render_sections :: "'v env \<Rightarrow> string \<Rightarrow> 'v config \<Rightarrow> (string \<times> string list) list \<Rightarrow>
    error + (string \<times> string) list" where
  "render_sections env fn config [] = Inr []"
| "render_sections env fn config ((key, value) # rest) =
     (case render_data env (rstrip (join [newline] value)) (fn @ '': Section '' @ key) config of
        Inl e \<Rightarrow> Inl e
      | Inr data \<Rightarrow>
          (case render_sections env fn config rest of
             Inl e \<Rightarrow> Inl e
           | Inr rest' \<Rightarrow> Inr ((key, data) # rest')))"

definition parse_sectioned_file :: "'v env \<Rightarrow> string \<Rightarrow> 'v config \<Rightarrow>
    error + (string \<times> string) list" where
  "parse_sectioned_file env fn config =
     (case readlines env fn of
        None \<Rightarrow> Inl (OpenFailed fn)
      | Some ls \<Rightarrow>
          (case render_sections env fn config (fst (scan_lines ls ([], None))) of
             Inl e \<Rightarrow> Inl e
           | Inr sections \<Rightarrow>
               (case List.find (\<lambda>s. s \<notin> fst ` set sections) REQUIRED_COMPONENT_SECTIONS of
                  Some s \<Rightarrow> Inl (MissingSection s fn)
                | None \<Rightarrow> Inr sections)))"

section \<open>Components and architectures\<close>

record 'v architecture =
  arch_name :: string
  arch_configuration :: "'v config"

text \<open>The two classes \<open>Component\<close> and \<open>ArchitectureComponent\<close> have the same attributes and
  differ in \<open>parse\<close>.\<close>

datatype 'v component =
    Component (comp_name: string) (resource_name: string) (configuration: "'v config")
  | ArchitectureComponent (comp_name: string) (resource_name: string) (configuration: "'v config")

text \<open>\<open>Component.__init__\<close>: the resource name defaults to the name.\<close>

definition Component_init :: "string \<Rightarrow> string option \<Rightarrow> 'v config \<Rightarrow> 'v component" where
  "Component_init name resource config =
     Component name (case resource of None \<Rightarrow> name | Some r \<Rightarrow> r) config"

text \<open>The second argument of \<open>parse\<close> is any Python value: a dictionary, an \<open>Architecture\<close>,
  or something else.\<close>

datatype 'v pyvalue = Dict "'v config" | Arch "'v architecture" | Other

definition Component_find :: "'v env \<Rightarrow> string \<Rightarrow> string \<Rightarrow> error + string" where
  "Component_find env topdir partial_path =
     (let paths = rev (base_to_top_paths env topdir ''components'' partial_path)
      in case List.find (path_exists env) paths of
           Some path \<Rightarrow> Inr path
         | None \<Rightarrow> Inl (FindFailed partial_path paths))"

text \<open>The loop \<open>for name in [...]: try: component = Component.find(topdir, name); break;
  except KeyError: pass\<close>: the first name that \<open>find\<close> resolves, \<open>None\<close> when there is none.\<close>

fun first_found :: "'v env \<Rightarrow> string \<Rightarrow> string list \<Rightarrow> string option" where
  "first_found env topdir [] = None"
| "first_found env topdir (name # names) =
     (case Component_find env topdir name of
        Inr path \<Rightarrow> Some path
      | Inl e \<Rightarrow> first_found env topdir names)"

definition Component_parse :: "'v env \<Rightarrow> 'v component \<Rightarrow> string \<Rightarrow> 'v pyvalue \<Rightarrow>
    error + (string \<times> string) list" where
  "Component_parse env self topdir parsing_configuration =
     (let config = (case parsing_configuration of
                      Dict d \<Rightarrow> configuration self ++ d
                    | _ \<Rightarrow> configuration self)
      in case first_found env topdir
                [resource_name self @ ''.c'',
                 resource_name self @ ''/'' @ resource_name self @ ''.c''] of
           None \<Rightarrow> Inl (ComponentNotFound (resource_name self))
         | Some component \<Rightarrow> parse_sectioned_file env component config)"

definition ArchitectureComponent_parse :: "'v env \<Rightarrow> 'v component \<Rightarrow> string \<Rightarrow> 'v pyvalue \<Rightarrow>
    error + (string \<times> string) list" where
  "ArchitectureComponent_parse env self topdir arch =
     (case arch of
        Arch a \<Rightarrow>
          (case first_found env topdir
                  [arch_name a @ ''-'' @ resource_name self @ ''/''
                     @ arch_name a @ ''-'' @ resource_name self @ ''.c'',
                   resource_name self @ ''-'' @ arch_name a @ ''.c''] of
             None \<Rightarrow> Inl (ArchComponentNotFound (resource_name self) (arch_name a))
           | Some component \<Rightarrow> parse_sectioned_file env component (configuration self))
      | _ \<Rightarrow> Inl AssertionError)"

text \<open>\<open>component.parse(topdir, arch)\<close>: the method of the object's class.\<close>

definition parse :: "'v env \<Rightarrow> 'v component \<Rightarrow> string \<Rightarrow> 'v pyvalue \<Rightarrow>
    error + (string \<times> string) list" where
  "parse env self topdir arg =
     (case self of
        Component _ _ _ \<Rightarrow> Component_parse env self topdir arg
      | ArchitectureComponent _ _ _ \<Rightarrow> ArchitectureComponent_parse env self topdir arg)"

section \<open>Skeletons: \<open>RtosSkeleton.get_module_sections\<close>\<close>

record 'v skeleton =
  skel_name :: string
  skel_components :: "'v component list"
  skel_configuration :: "'v config"

text \<open>The inner loop over the items of one component's sections.\<close>

fun add_sections :: "(string \<times> string) list \<Rightarrow> (string \<times> string list) list \<Rightarrow>
    (string \<times> string list) list" where
  "add_sections [] module_sections = module_sections"
| "add_sections ((name, contents) # rest) module_sections =
     add_sections rest
       (case map_of module_sections name of
          None \<Rightarrow> dict_set name [contents] module_sections
        | Some blocks \<Rightarrow> dict_set name (blocks @ [contents]) module_sections)"

fun collect_sections :: "'v env \<Rightarrow> string \<Rightarrow> 'v architecture \<Rightarrow> 'v component list \<Rightarrow>
    (string \<times> string list) list \<Rightarrow> error + (string \<times> string list) list" where
  "collect_sections env topdir arch [] module_sections = Inr module_sections"
| "collect_sections env topdir arch (component # rest) module_sections =
     (case parse env component topdir (Arch arch) of
        Inl e \<Rightarrow> Inl e
      | Inr sections \<Rightarrow>
          collect_sections env topdir arch rest (add_sections sections module_sections))"

definition get_module_sections :: "'v env \<Rightarrow> 'v skeleton \<Rightarrow> string \<Rightarrow> 'v architecture \<Rightarrow>
    error + (string \<times> string list) list" where
  "get_module_sections env self topdir arch =
     collect_sections env topdir arch (skel_components self) []"

section \<open>The schema merger: \<open>_merge_schema_entries\<close>\<close>

definition name_of :: "elem \<Rightarrow> string option" where
  "name_of e = map_of (attrib e) ''name''"

text \<open>\<open>{child.attrib['name']: child for child in a}\<close>: the dictionary binds a name to the
  last child that carries it, here to the child's position in \<open>a\<close>; a child without a name
  raises \<open>KeyError\<close>.\<close>

fun index_children :: "nat \<Rightarrow> elem list \<Rightarrow> (string \<times> nat) list \<Rightarrow> error + (string \<times> nat) list" where
  "index_children i [] a_children = Inr a_children"
| "index_children i (child # rest) a_children =
     (case name_of child of
        None \<Rightarrow> Inl (KeyError ''name'')
      | Some name \<Rightarrow> index_children (Suc i) rest (dict_set name i a_children))"

text \<open>
  The merge changes \<open>a\<close> in place, and \<open>a.remove(a_child)\<close> removes the very object that
  the dictionary holds. The model keeps the children of \<open>a\<close> as slots: \<open>(Some i, e)\<close> is the
  child that was at position \<open>i\<close> when the merge began, with its present content \<open>e\<close>, and
  \<open>(None, e)\<close> is an entry appended from \<open>b\<close>. A child that has been removed from \<open>a\<close> still
  is in the dictionary, with the content it had at the start (only children without entries
  are removed, and nothing changes those).
\<close>

type_synonym slot = "nat option \<times> elem"

lemma size_elem_children: "Suc (2 * size_list size (children b)) < 2 * size b"
  by (cases b) simp

function merge_schema_entries :: "elem \<Rightarrow> elem \<Rightarrow> string \<Rightarrow> error + elem"
  and merge_children :: "elem list \<Rightarrow> (string \<times> nat) list \<Rightarrow> string \<Rightarrow> elem list \<Rightarrow>
    slot list \<Rightarrow> error + slot list" where
  "merge_schema_entries a b path =
     (case index_children 0 (children a) [] of
        Inl e \<Rightarrow> Inl e
      | Inr a_children \<Rightarrow>
          (case merge_children (children a) a_children path (children b)
                  (zip (map Some [0..<length (children a)]) (children a)) of
             Inl e \<Rightarrow> Inl e
           | Inr slots \<Rightarrow> Inr (Element (tag a) (attrib a) (etext a) (map snd slots))))"
| "merge_children orig a_children path [] slots = Inr slots"
| "merge_children orig a_children path (b_child # rest) slots =
     (case name_of b_child of
        None \<Rightarrow> Inl (SchemaNoName path)
      | Some name \<Rightarrow>
          (case map_of a_children name of
             None \<Rightarrow> merge_children orig a_children path rest (slots @ [(None, b_child)])
           | Some i \<Rightarrow>
               (let a_child = (case map_of slots (Some i) of Some e \<Rightarrow> e | None \<Rightarrow> orig ! i)
                in if (children b_child = []) \<noteq> (children a_child = [])
                   then Inl (SchemaConflict path name)
                   else if children b_child \<noteq> [] \<and> children a_child \<noteq> []
                   then (case merge_schema_entries a_child b_child (path @ ''.'' @ name) of
                           Inl e \<Rightarrow> Inl e
                         | Inr a_child' \<Rightarrow>
                             merge_children orig a_children path rest
                               (map (\<lambda>(t, e). if t = Some i then (t, a_child') else (t, e)) slots))
                   else if Some i \<in> fst ` set slots
                   then merge_children orig a_children path rest
                          (filter (\<lambda>(t, e). t \<noteq> Some i) slots @ [(None, b_child)])
                   else Inl ValueError)))"
  by pat_completeness auto

termination
  by (relation "measure (\<lambda>x. case x of Inl (a, b, path) \<Rightarrow> 2 * size b
                              | Inr (orig, a_children, path, bs, slots) \<Rightarrow> 2 * size_list size bs + 1)")
     (auto simp: size_elem_children)

declare merge_schema_entries.simps [simp del]

text \<open>\<open>_merge_schema_sections\<close>: every section is parsed inside a \<open>schema\<close> element and merged
  into the element that \<open>fromstring('<schema>\n</schema>')\<close> gives.\<close>

fun merge_sections_loop :: "'v env \<Rightarrow> string list \<Rightarrow> elem \<Rightarrow> error + elem" where
  "merge_sections_loop env [] merged_schema = Inr merged_schema"
| "merge_sections_loop env (section # rest) merged_schema =
     (case xml_fromstring env (''<schema>'' @ [newline] @ section @ [newline] @ ''</schema>'') of
        Inl e \<Rightarrow> Inl e
      | Inr schema \<Rightarrow>
          (case merge_schema_entries merged_schema schema [] of
             Inl e \<Rightarrow> Inl e
           | Inr merged \<Rightarrow> merge_sections_loop env rest merged))"

definition merge_schema_sections :: "'v env \<Rightarrow> string list \<Rightarrow> error + string" where
  "merge_schema_sections env sections =
     (case merge_sections_loop env sections (Element ''schema'' [] [newline] []) of
        Inl e \<Rightarrow> Inl e
      | Inr merged_schema \<Rightarrow> Inr (xml_tostring env merged_schema))"

section \<open>The module writer: \<open>RtosModule._render\<close>\<close>

record 'v rtos_module =
  mod_name :: string
  mod_arch :: "'v architecture"
  mod_sections :: "(string \<times> string list) list"
  mod_python_file :: string

definition rtos_module_name :: "'v rtos_module \<Rightarrow> string" where
  "rtos_module_name self = ''rtos-'' @ mod_name self"

definition source_sections :: "string list" where
  "source_sections =
     [''headers'', ''object_like_macros'', ''type_definitions'', ''structure_definitions'',
      ''extern_definitions'', ''function_definitions'', ''state'', ''function_like_macros'',
      ''functions'', ''public_functions'']"

definition header_sections :: "string list" where
  "header_sections =
     [''public_headers'', ''public_type_definitions'', ''public_object_like_macros'',
      ''public_function_like_macros'', ''public_extern_definitions'',
      ''public_function_definitions'']"

text \<open>
  The texts of the three files that \<open>_render\<close> writes, in the order in which it writes them;
  the fourth file is a copy of \<open>python_file\<close>. Each loop takes the text written so far. The
  directories, the paths of the files and the copy are left to the file system: the model
  returns the three texts when every step succeeds, and the first exception otherwise (the
  files that the code has written before the exception are not part of the result).
\<close>

record module_files =
  source_output :: string
  header_output :: string
  config_output :: string

fun write_source :: "(string \<times> string list) list \<Rightarrow> string list \<Rightarrow> string \<Rightarrow> error + string" where
  "write_source sections [] f = Inr f"
| "write_source sections (ss # rest) f =
     (case map_of sections ss of
        None \<Rightarrow> Inl (KeyError ss)
      | Some blocks \<Rightarrow>
          (case (if ss = ''type_definitions'' then sort_typedefs (join [newline] blocks)
                 else Inr (join [newline] blocks)) of
             Inl e \<Rightarrow> Inl e
           | Inr data \<Rightarrow> write_source sections rest (f @ data @ [newline])))"

fun write_blocks :: "string list \<Rightarrow> string \<Rightarrow> string" where
  "write_blocks [] f = f"
| "write_blocks (data # rest) f = write_blocks rest (f @ data @ [newline])"

fun write_header :: "(string \<times> string list) list \<Rightarrow> string list \<Rightarrow> string \<Rightarrow> error + string" where
  "write_header sections [] f = Inr f"
| "write_header sections (ss # rest) f =
     (case map_of sections ss of
        None \<Rightarrow> Inl (KeyError ss)
      | Some blocks \<Rightarrow> write_header sections rest (write_blocks blocks f))"

text \<open>\<open>self._module_name.upper().replace('-', '_')\<close>.\<close>

definition guard_name :: "'v env \<Rightarrow> 'v rtos_module \<Rightarrow> string" where
  "guard_name env self =
     map (\<lambda>c. if c = CHR ''-'' then CHR ''_'' else c) (str_upper env (rtos_module_name self))"

definition xml_declaration :: string where
  "xml_declaration =
     ''<?xml version='' @ [CHR 0x22] @ ''1.0'' @ [CHR 0x22] @ '' encoding='' @ [CHR 0x22]
       @ ''UTF-8'' @ [CHR 0x22] @ '' ?>'' @ [newline]"

definition RtosModule_render :: "'v env \<Rightarrow> 'v rtos_module \<Rightarrow> error + module_files" where
  "RtosModule_render env self =
     (let sections = mod_sections self; guard = guard_name env self
      in case write_source sections source_sections [] of
           Inl e \<Rightarrow> Inl e
         | Inr source \<Rightarrow>
             (case write_header sections header_sections
                     (''#ifndef '' @ guard @ ''_H'' @ [newline] @ ''#define '' @ guard @ ''_H'' @ [newline]) of
                Inl e \<Rightarrow> Inl e
              | Inr header \<Rightarrow>
                  (case merge_schema_sections env
                          (case map_of sections ''schema'' of None \<Rightarrow> [] | Some l \<Rightarrow> l) of
                     Inl e \<Rightarrow> Inl e
                   | Inr schema \<Rightarrow>
                       Inr \<lparr>source_output = source,
                            header_output = header @ [newline] @ ''#endif /* '' @ guard @ ''_H */'',
                            config_output = xml_declaration @ schema\<rparr>)))"


section \<open>Notions and examples used in the statements\<close>

text \<open>The blocks bound to a name: the empty list when the name is not bound.\<close>

definition blocks_of :: "(string \<times> string list) list \<Rightarrow> string \<Rightarrow> string list" where
  "blocks_of module_sections name =
     (case map_of module_sections name of None \<Rightarrow> [] | Some blocks \<Rightarrow> blocks)"


definition contribution :: "'v env \<Rightarrow> string \<Rightarrow> 'v architecture \<Rightarrow> string \<Rightarrow> 'v component \<Rightarrow>
    string option" where
  "contribution env topdir arch name component =
     (case parse env component topdir (Arch arch) of
        Inr sections \<Rightarrow> map_of sections name
      | Inl e \<Rightarrow> None)"


text \<open>
  A small environment for the concrete cases, on ASCII text.
  \<^item> One repository: the candidate locations of a partial path are the single path
    \<open>topdir/components/partial_path\<close>.
  \<^item> An engine for templates of one tag, \<open>[[key]]\<close>; every other text is returned as it is.
    As in \<open>pystache.render(in_data, config, name=name)\<close>, the keyword \<open>name\<close> is a key of the
    context and comes before the configuration.
  \<^item> Upper case for the letters a to z, which is \<open>str.upper\<close> on ASCII text.
  \<^item> A serialiser that writes an element as \<open>ElementTree.tostring\<close> does when nothing has to be
    escaped and no element has a tail: \<open><tag />\<close> for an element without text and children,
    \<open><tag>text...</tag>\<close> otherwise.
  \<^item> An XML parser that refuses every text; the concrete cases have no schema section, so
    that it is never called.
\<close>

definition one_tag_render :: "string \<Rightarrow> string config \<Rightarrow> string \<Rightarrow> error + string" where
  "one_tag_render in_data config name =
     (if startswith ''[['' in_data \<and> endswith '']]'' in_data
      then (case (config(''name'' \<mapsto> name)) (drop 2 (take (length in_data - 2) in_data)) of
              Some v \<Rightarrow> Inr v
            | None \<Rightarrow> Inl (RenderFailed (drop 2 (take (length in_data - 2) in_data))))
      else Inr in_data)"

definition ascii_upper :: "string \<Rightarrow> string" where
  "ascii_upper s =
     map (\<lambda>c. case map_of (zip ''abcdefghijklmnopqrstuvwxyz'' ''ABCDEFGHIJKLMNOPQRSTUVWXYZ'') c of
                Some u \<Rightarrow> u | None \<Rightarrow> c) s"

fun example_tostring :: "elem \<Rightarrow> string" where
  "example_tostring (Element t attrs txt cs) =
     (let start = ''<'' @ t
                  @ concat (map (\<lambda>(k, v). '' '' @ k @ ''='' @ [CHR 0x22] @ v @ [CHR 0x22]) attrs)
      in if txt = [] \<and> cs = [] then start @ '' />''
         else start @ ''>'' @ txt @ concat (map example_tostring cs) @ ''</'' @ t @ ''>'')"

definition example_env :: "(string \<times> string list) list \<Rightarrow> string env" where
  "example_env files =
     \<lparr>base_to_top_paths = (\<lambda>topdir d partial_path. [topdir @ ''/'' @ d @ ''/'' @ partial_path]),
      path_exists = (\<lambda>path. path \<in> fst ` set files),
      readlines = map_of files,
      pystache_render = one_tag_render,
      str_upper = ascii_upper,
      xml_fromstring = (\<lambda>s. Inl (XmlParseFailed s)),
      xml_tostring = example_tostring\<rparr>"

text \<open>A fragment with the seventeen required sections, all empty but \<open>headers\<close>.\<close>

definition example_fragment :: "string \<Rightarrow> string list" where
  "example_fragment headers =
     concat (map (\<lambda>s. if s = ''headers'' then [''/*| '' @ s @ '' |*/'' @ [newline], headers @ [newline]]
                       else [''/*| '' @ s @ '' |*/'' @ [newline]])
              REQUIRED_COMPONENT_SECTIONS)"

subsection \<open>Positions in a schema\<close>

text \<open>The first child with a given name, and the entry at a position: a path of names from
  the root.\<close>

fun find_child :: "string \<Rightarrow> elem list \<Rightarrow> elem option" where
  "find_child n [] = None"
| "find_child n (c # cs) = (if name_of c = Some n then Some c else find_child n cs)"

fun entry_at :: "elem \<Rightarrow> string list \<Rightarrow> elem option" where
  "entry_at e [] = Some e"
| "entry_at e (n # ns) =
     (case find_child n (children e) of None \<Rightarrow> None | Some c \<Rightarrow> entry_at c ns)"

text \<open>Both trees have an entry at the position, and exactly one of the two has children.\<close>

definition disagree :: "elem \<Rightarrow> elem \<Rightarrow> string list \<Rightarrow> bool" where
  "disagree a b pos \<longleftrightarrow>
     pos \<noteq> [] \<and>
     (case (entry_at a pos, entry_at b pos) of
        (Some x, Some y) \<Rightarrow> (children x = []) \<noteq> (children y = [])
      | _ \<Rightarrow> False)"

text \<open>Every entry below the root has a name, and the names of siblings are distinct.\<close>

fun wf_schema :: "elem \<Rightarrow> bool" where
  "wf_schema (Element t at tx cs) \<longleftrightarrow>
     distinct (map name_of cs) \<and> (\<forall>c \<in> set cs. name_of c \<noteq> None \<and> wf_schema c)"

fun dotted :: "string \<Rightarrow> string list \<Rightarrow> string" where
  "dotted path [] = path"
| "dotted path (n # ns) = dotted (path @ ''.'' @ n) ns"

text \<open>What the claim says of one merge: it fails exactly when the trees disagree at a
  position, and then the error names such a position.\<close>

definition merge_spec :: "elem \<Rightarrow> elem \<Rightarrow> string \<Rightarrow> bool" where
  "merge_spec a b path \<longleftrightarrow>
     (case merge_schema_entries a b path of
        Inl e \<Rightarrow> \<exists>pos. disagree a b pos \<and> e = SchemaConflict (dotted path (butlast pos)) (last pos)
      | Inr a' \<Rightarrow> \<forall>pos. \<not> disagree a b pos)"


text \<open>Two schemas that disagree at the position \<open>a.x\<close>.\<close>

definition example_schema_a :: elem where
  "example_schema_a =
     Element ''schema'' [] [newline]
       [Element ''entry'' [(''name'', ''a'')] []
          [Element ''entry'' [(''name'', ''x'')] []
             [Element ''entry'' [(''name'', ''q''), (''type'', ''int'')] [] []]]]"

definition example_schema_b :: elem where
  "example_schema_b =
     Element ''schema'' [] [newline]
       [Element ''entry'' [(''name'', ''a'')] []
          [Element ''entry'' [(''name'', ''x''), (''type'', ''bool'')] [] []]]"


section \<open>Proofs: the typedef sorter\<close>

subsection \<open>The loops as filters\<close>


lemma first_pass_filter:
  "first_pass N ts = (filter (\<lambda>p. snd p \<notin> set N) ts, filter (\<lambda>p. snd p \<in> set N) ts)"
  by (simp add: first_pass_def move_loop_filter split_def)

lemma unlock_filter:
  "unlock c r ts = (r @ filter (\<lambda>p. snd p = c) ts, filter (\<lambda>p. snd p \<noteq> c) ts)"
  by (simp add: unlock_def move_loop_filter split_def)

lemma expand_step:
  "expand i r ts =
     (if i < length r
      then expand (Suc i) (r @ filter (\<lambda>p. snd p = fst (r ! i)) ts)
             (filter (\<lambda>p. snd p \<noteq> fst (r ! i)) ts)
      else r)"
  by (subst expand.simps) (simp add: unlock_filter)

lemma expand_induct [case_names step stop]:
  fixes P :: "nat \<Rightarrow> typedef_pair list \<Rightarrow> typedef_pair list \<Rightarrow> bool"
  assumes "\<And>i r ts. i < length r \<Longrightarrow>
             P (Suc i) (r @ filter (\<lambda>p. snd p = fst (r ! i)) ts)
               (filter (\<lambda>p. snd p \<noteq> fst (r ! i)) ts) \<Longrightarrow> P i r ts"
    and "\<And>i r ts. \<not> i < length r \<Longrightarrow> P i r ts"
  shows "P i r ts"
proof (induction i r ts rule: expand.induct)
  case (1 i r ts)
  show ?case
  proof (cases "i < length r")
    case True
    then show ?thesis using assms(1) 1
      by (simp add: unlock_filter)
  next
    case False
    then show ?thesis by (rule assms(2))
  qed
qed

lemma expand_prefix: "\<exists>X. expand i r ts = r @ X \<and> set X \<subseteq> set ts"
proof (induction i r ts rule: expand_induct)
  case (step i r ts)
  then obtain X where X: "expand (Suc i) (r @ filter (\<lambda>p. snd p = fst (r ! i)) ts)
               (filter (\<lambda>p. snd p \<noteq> fst (r ! i)) ts) = (r @ filter (\<lambda>p. snd p = fst (r ! i)) ts) @ X"
     "set X \<subseteq> set (filter (\<lambda>p. snd p \<noteq> fst (r ! i)) ts)" by blast
  have "expand i r ts = r @ (filter (\<lambda>p. snd p = fst (r ! i)) ts @ X)"
    using step.hyps X(1) by (subst expand_step) simp
  moreover have "set (filter (\<lambda>p. snd p = fst (r ! i)) ts @ X) \<subseteq> set ts" using X(2) by auto
  ultimately show ?case by blast
next
  case (stop i r ts)
  then show ?case by (subst expand_step) simp
qed


lemma placed_ok_append:
  assumes "placed_ok N r" and "i < length r" and "\<forall>p \<in> set F. snd p = fst (r ! i)"
    and "set r \<inter> set F = {}"
  shows "placed_ok N (r @ F)"
  unfolding placed_ok_def
proof (intro allI impI)
  fix k assume k: "k < length (r @ F)"
  text \<open>A pair of \<open>r\<close> has no copy in \<open>F\<close>, so all its copies are in \<open>r\<close>.\<close>
  have copies: "j < length r" if "j < length (r @ F)" "(r @ F) ! j = r ! m" "m < length r" for j m
  proof (rule ccontr)
    assume "\<not> j < length r"
    with that(1) have "(r @ F) ! j \<in> set F" by (simp add: nth_append)
    moreover have "r ! m \<in> set r" using that(3) by simp
    ultimately show False using assms(4) that(2) by auto
  qed
  show "snd ((r @ F) ! k) \<notin> N
      \<or> (\<exists>m<k. fst ((r @ F) ! m) = snd ((r @ F) ! k)
            \<and> (\<forall>j<length (r @ F). (r @ F) ! j = (r @ F) ! m \<longrightarrow> j < k))"
  proof (cases "k < length r")
    case True
    with assms(1) have "snd (r ! k) \<notin> N
        \<or> (\<exists>m<k. fst (r ! m) = snd (r ! k) \<and> (\<forall>j<length r. r ! j = r ! m \<longrightarrow> j < k))"
      unfolding placed_ok_def by blast
    then show ?thesis
    proof
      assume "snd (r ! k) \<notin> N"
      with True show ?thesis by (simp add: nth_append)
    next
      assume "\<exists>m<k. fst (r ! m) = snd (r ! k) \<and> (\<forall>j<length r. r ! j = r ! m \<longrightarrow> j < k)"
      then obtain m where m: "m < k" "fst (r ! m) = snd (r ! k)"
        and all: "\<forall>j<length r. r ! j = r ! m \<longrightarrow> j < k" by blast
      have ml: "m < length r" using m(1) True by simp
      have e: "fst ((r @ F) ! m) = snd ((r @ F) ! k)" using m(2) True ml by (simp add: nth_append)
      have "\<forall>j<length (r @ F). (r @ F) ! j = (r @ F) ! m \<longrightarrow> j < k"
      proof (intro allI impI)
        fix j assume j: "j < length (r @ F)" "(r @ F) ! j = (r @ F) ! m"
        then have jm: "(r @ F) ! j = r ! m" using ml by (simp add: nth_append)
        from copies [OF j(1) jm ml] have jl: "j < length r" .
        with jm have "r ! j = r ! m" by (simp add: nth_append)
        with all jl show "j < k" by blast
      qed
      with m(1) e show ?thesis by blast
    qed
  next
    case False
    with k have "(r @ F) ! k \<in> set F" by (simp add: nth_append)
    with assms(3) have "snd ((r @ F) ! k) = fst (r ! i)" by blast
    moreover have ik: "i < k" using False assms(2) by simp
    moreover have ri: "(r @ F) ! i = r ! i" using assms(2) by (simp add: nth_append)
    ultimately have e: "fst ((r @ F) ! i) = snd ((r @ F) ! k)" by simp
    have "\<forall>j<length (r @ F). (r @ F) ! j = (r @ F) ! i \<longrightarrow> j < k"
    proof (intro allI impI)
      fix j assume j: "j < length (r @ F)" "(r @ F) ! j = (r @ F) ! i"
      then have "(r @ F) ! j = r ! i" using ri by simp
      from copies [OF j(1) this assms(2)] have "j < length r" .
      with False show "j < k" by simp
    qed
    with ik e show ?thesis by blast
  qed
qed

lemma expand_placed_ok:
  "placed_ok N r \<Longrightarrow> set r \<inter> set ts = {} \<Longrightarrow> placed_ok N (expand i r ts)"
proof (induction i r ts rule: expand_induct)
  case (step i r ts)
  let ?F = "filter (\<lambda>p. snd p = fst (r ! i)) ts"
  let ?ts = "filter (\<lambda>p. snd p \<noteq> fst (r ! i)) ts"
  have "\<forall>p \<in> set ?F. snd p = fst (r ! i)" by simp
  moreover have "set r \<inter> set ?F = {}" using step.prems(2) by auto
  ultimately have a: "placed_ok N (r @ ?F)"
    using step.prems(1) step.hyps by (intro placed_ok_append [where i = i])
  have b: "set (r @ ?F) \<inter> set ?ts = {}" using step.prems(2) by auto
  from step.IH [OF a b] step.hyps show ?case by (subst expand_step) simp
next
  case (stop i r ts)
  then show ?case by (subst expand_step) simp
qed

lemma expand_complete:
  assumes "i \<le> length r" and "\<forall>j < i. \<forall>t \<in> set ts. snd t \<noteq> fst (r ! j)"
    and "t \<in> set ts" and "p \<in> set (expand i r ts)" and "snd t = fst p"
  shows "t \<in> set (expand i r ts)"
  using assms
proof (induction i r ts rule: expand_induct)
  case (step i r ts)
  let ?F = "filter (\<lambda>p. snd p = fst (r ! i)) ts"
  let ?ts = "filter (\<lambda>p. snd p \<noteq> fst (r ! i)) ts"
  have eq: "expand i r ts = expand (Suc i) (r @ ?F) ?ts"
    using step.hyps by (subst expand_step) simp
  show ?case
  proof (cases "snd t = fst (r ! i)")
    case True
    with step.prems(3) have "t \<in> set (r @ ?F)" by simp
    moreover obtain X where "expand (Suc i) (r @ ?F) ?ts = (r @ ?F) @ X"
      using expand_prefix by blast
    ultimately show ?thesis unfolding eq by auto
  next
    case False
    have a: "Suc i \<le> length (r @ ?F)" using step.hyps by simp
    have b: "\<forall>j < Suc i. \<forall>t \<in> set ?ts. snd t \<noteq> fst ((r @ ?F) ! j)"
    proof (intro allI impI ballI)
      fix j t assume j: "j < Suc i" and t: "t \<in> set ?ts"
      have jr: "j < length r" using j step.hyps by simp
      show "snd t \<noteq> fst ((r @ ?F) ! j)"
      proof (cases "j = i")
        case True
        with t jr show ?thesis by (simp add: nth_append)
      next
        case False
        with j have "j < i" by simp
        with step.prems(2) t jr show ?thesis by (simp add: nth_append)
      qed
    qed
    have c: "t \<in> set ?ts" using False step.prems(3) by simp
    show ?thesis
      unfolding eq using step.IH [OF a b c] step.prems(4,5) unfolding eq by simp
  qed
next
  case (stop i r ts)
  then have "expand i r ts = r" by (subst expand_step) simp
  with stop.prems(4) obtain j where "j < length r" "r ! j = p"
    by (auto simp: in_set_conv_nth)
  with stop.prems(1) stop.hyps stop.prems(2,3,5) show ?case by auto
qed

lemma expand_idem:
  "expand i r ts = r @ X \<Longrightarrow> expand i r X = r @ X"
proof (induction i r ts arbitrary: X rule: expand_induct)
  case (step i r ts)
  let ?c = "fst (r ! i)"
  let ?F = "filter (\<lambda>p. snd p = ?c) ts"
  let ?ts = "filter (\<lambda>p. snd p \<noteq> ?c) ts"
  have eq: "expand i r ts = expand (Suc i) (r @ ?F) ?ts"
    using step.hyps by (subst expand_step) simp
  obtain X' where X': "expand (Suc i) (r @ ?F) ?ts = (r @ ?F) @ X'" "set X' \<subseteq> set ?ts"
    using expand_prefix by blast
  with eq step.prems have X: "X = ?F @ X'" by simp
  have f1: "filter (\<lambda>p. snd p = ?c) X = ?F"
    using X'(2) unfolding X by (auto simp: filter_empty_conv)
  have f2: "filter (\<lambda>p. snd p \<noteq> ?c) X = X'"
    using X'(2) unfolding X by (auto simp: filter_id_conv filter_empty_conv)
  have "expand i r X = expand (Suc i) (r @ ?F) X'"
    using step.hyps by (subst expand_step) (simp add: f1 f2)
  also have "\<dots> = (r @ ?F) @ X'" by (rule step.IH [OF X'(1)])
  finally show ?case by (simp add: X)
next
  case (stop i r ts)
  then show ?case by (subst expand_step, subst (asm) expand_step) simp
qed

subsection \<open>Parsing a line that \<open>sort_typedefs\<close> wrote\<close>

lemma split_ws_tokens:
  "\<forall>c \<in> set w. \<not> is_space c \<Longrightarrow> t \<in> set (split_ws w s) \<Longrightarrow> token t"
proof (induction s arbitrary: w)
  case Nil
  then show ?case by (auto simp: token_def split: if_splits)
next
  case (Cons c cs)
  show ?case
  proof (cases "is_space c")
    case True
    with Cons.prems have "t = w \<and> w \<noteq> [] \<or> t \<in> set (split_ws [] cs)"
      by (auto split: if_splits)
    then show ?thesis
    proof
      assume "t = w \<and> w \<noteq> []"
      with Cons.prems(1) show ?thesis by (simp add: token_def)
    next
      assume "t \<in> set (split_ws [] cs)"
      with Cons.IH [of "[]"] show ?thesis by simp
    qed
  next
    case False
    with Cons.prems have "t \<in> set (split_ws (w @ [c]) cs)" by simp
    moreover have "\<forall>c \<in> set (w @ [c]). \<not> is_space c" using False Cons.prems(1) by simp
    ultimately show ?thesis using Cons.IH by blast
  qed
qed

lemma py_split_tokens: "t \<in> set (py_split s) \<Longrightarrow> token t"
  unfolding py_split_def using split_ws_tokens [of "[]" t s] by simp

lemma split_ws_nospace:
  "\<forall>c \<in> set u. \<not> is_space c \<Longrightarrow> split_ws w (u @ s) = split_ws (w @ u) s"
  by (induction u arbitrary: w) auto

lemma split_ws_token_space:
  assumes "token t"
  shows "split_ws [] (t @ CHR '' '' # s) = t # split_ws [] s"
proof -
  have "split_ws [] (t @ CHR '' '' # s) = split_ws t (CHR '' '' # s)"
    using assms split_ws_nospace [of t "[]"] by (simp add: token_def)
  also have "\<dots> = t # split_ws [] s" using assms by (simp add: token_def is_space_def)
  finally show ?thesis .
qed

lemma split_ws_token: "token t \<Longrightarrow> split_ws [] t = [t]"
  using split_ws_nospace [of t "[]" "[]"] by (simp add: token_def)

lemma join_Cons:
  "join sep (x # xs) = (if xs = [] then x else x @ sep @ join sep xs)"
  by (cases xs) simp_all

lemma split_ws_join:
  "\<forall>t \<in> set toks. token t \<Longrightarrow>
   split_ws [] (join '' '' toks @ CHR '' '' # s) = toks @ split_ws [] s"
proof (induction toks)
  case Nil
  then show ?case by (simp add: is_space_def)
next
  case (Cons x xs)
  then show ?case by (simp add: join_Cons split_ws_token_space)
qed

lemma py_split_format:
  assumes "token new" and "\<forall>t \<in> set toks. token t"
  shows "py_split (''typedef '' @ join '' '' toks @ '' '' @ new) = ''typedef'' # toks @ [new]"
proof -
  have t: "token ''typedef''" by (simp add: token_def is_space_def)
  have "split_ws [] (''typedef'' @ CHR '' '' # (join '' '' toks @ CHR '' '' # new))
      = ''typedef'' # split_ws [] (join '' '' toks @ CHR '' '' # new)"
    using t by (rule split_ws_token_space)
  also have "split_ws [] (join '' '' toks @ CHR '' '' # new) = toks @ split_ws [] new"
    using assms(2) by (rule split_ws_join)
  also have "split_ws [] new = [new]" using assms(1) by (rule split_ws_token)
  finally show ?thesis by (simp add: py_split_def)
qed

lemma parse_format:
  assumes "wf_pair p"
  shows "parse_typedef_line (format_typedef p) = Inr p"
proof -
  from assms obtain toks where toks: "\<forall>t \<in> set toks. token t" "snd p = join '' '' toks"
    and new: "token (fst p)" by (auto simp: wf_pair_def)
  have b: "butlast (format_typedef p) = ''typedef '' @ join '' '' toks @ '' '' @ fst p"
    by (simp add: format_typedef_def toks(2) butlast_append)
  have e: "endswith '';'' (format_typedef p)"
    by (simp add: format_typedef_def endswith_def)
  show ?thesis
    unfolding parse_typedef_line_def b py_split_format [OF new toks(1)]
    using e toks(2) by (cases p) simp
qed

lemma parse_line_wf:
  assumes "parse_typedef_line l = Inr p"
  shows "wf_pair p"
proof -
  from assms obtain ps where ps: "py_split (butlast l) = ''typedef'' # ps"
    and p: "p = (last (''typedef'' # ps), join '' '' (butlast ps))"
    by (auto simp: parse_typedef_line_def split: if_splits list.splits)
  have all: "\<forall>t \<in> set (''typedef'' # ps). token t"
    using py_split_tokens [of _ "butlast l"] unfolding ps by blast
  have "last (''typedef'' # ps) \<in> set (''typedef'' # ps)" by (rule last_in_set) simp
  with all have "token (fst p)" unfolding p by simp
  moreover have "\<forall>t \<in> set (butlast ps). token t" using all by (auto dest: in_set_butlastD)
  ultimately show ?thesis unfolding wf_pair_def p by auto
qed

lemma parse_typedefs_wf:
  "parse_typedefs ls acc = Inr ps \<Longrightarrow> \<forall>p \<in> set acc. wf_pair p \<Longrightarrow> \<forall>p \<in> set ps. wf_pair p"
proof (induction ls arbitrary: acc)
  case Nil
  then show ?case by simp
next
  case (Cons l ls)
  show ?case
  proof (cases "l = []")
    case True
    with Cons show ?thesis by simp
  next
    case False
    with Cons.prems(1) obtain p where p: "parse_typedef_line l = Inr p"
      and rest: "parse_typedefs ls (acc @ [p]) = Inr ps"
      by (auto split: sum.splits)
    have "\<forall>q \<in> set (acc @ [p]). wf_pair q" using Cons.prems(2) parse_line_wf [OF p] by simp
    with Cons.IH [OF rest] show ?thesis by blast
  qed
qed

lemma format_nonempty: "format_typedef p \<noteq> []"
  by (simp add: format_typedef_def)

lemma parse_typedefs_format:
  "\<forall>p \<in> set r. wf_pair p \<Longrightarrow> parse_typedefs (map format_typedef r) acc = Inr (acc @ r)"
  by (induction r arbitrary: acc) (simp_all add: format_nonempty parse_format)

lemma join_space_no_newline:
  "\<forall>t \<in> set toks. token t \<Longrightarrow> newline \<notin> set (join '' '' toks)"
  by (induction toks) (auto simp: join_Cons token_def is_space_def)

lemma format_no_newline:
  assumes "wf_pair p"
  shows "newline \<notin> set (format_typedef p)"
proof -
  from assms obtain toks where toks: "\<forall>t \<in> set toks. token t" "snd p = join '' '' toks"
    and new: "token (fst p)" by (auto simp: wf_pair_def)
  have "newline \<notin> set (fst p)" using new by (auto simp: token_def is_space_def)
  moreover have "newline \<notin> set (snd p)" unfolding toks(2) using toks(1) by (rule join_space_no_newline)
  ultimately show ?thesis by (simp add: format_typedef_def)
qed

lemma split_on_no_sep:
  "d \<notin> set u \<Longrightarrow> split_on d w (u @ s) = split_on d (w @ u) s"
  by (induction u arbitrary: w) auto

lemma split_on_join:
  "ls \<noteq> [] \<Longrightarrow> \<forall>l \<in> set ls. d \<notin> set l \<Longrightarrow> split_on d [] (join [d] ls) = ls"
proof (induction ls)
  case Nil
  then show ?case by simp
next
  case (Cons l ls)
  show ?case
  proof (cases "ls = []")
    case True
    with Cons.prems show ?thesis using split_on_no_sep [of d l "[]" "[]"] by simp
  next
    case False
    have "split_on d [] (l @ d # join [d] ls) = split_on d l (d # join [d] ls)"
      using Cons.prems split_on_no_sep [of d l "[]"] by simp
    with False Cons show ?thesis by (simp add: join_Cons)
  qed
qed

subsection \<open>The order of the pairs\<close>

lemma sort_pairs_expand:
  "sort_pairs ps =
     expand 0 (filter (\<lambda>p. snd p \<notin> fst ` set ps) ps) (filter (\<lambda>p. snd p \<in> fst ` set ps) ps)"
  by (simp add: sort_pairs_def first_pass_filter)

lemma sort_pairs_subset: "set (sort_pairs ps) \<subseteq> set ps"
proof -
  obtain X where "sort_pairs ps = filter (\<lambda>p. snd p \<notin> fst ` set ps) ps @ X"
    "set X \<subseteq> set (filter (\<lambda>p. snd p \<in> fst ` set ps) ps)"
    unfolding sort_pairs_expand using expand_prefix by blast
  then show ?thesis by auto
qed

lemma sort_pairs_placed: "placed_ok (fst ` set ps) (sort_pairs ps)"
proof -
  let ?B = "filter (\<lambda>p. snd p \<notin> fst ` set ps) ps"
  let ?P = "filter (\<lambda>p. snd p \<in> fst ` set ps) ps"
  have "placed_ok (fst ` set ps) ?B"
    unfolding placed_ok_def
  proof (intro allI impI disjI1)
    fix k assume "k < length ?B"
    then have "?B ! k \<in> set ?B" by (rule nth_mem)
    then show "snd (?B ! k) \<notin> fst ` set ps" by simp
  qed
  moreover have "set ?B \<inter> set ?P = {}" by auto
  ultimately show ?thesis unfolding sort_pairs_expand by (rule expand_placed_ok)
qed

lemma sort_pairs_producer_copies:
  assumes "k < length (sort_pairs ps)"
    and "snd (sort_pairs ps ! k) \<in> fst ` set ps"
  shows "\<exists>m < k. fst (sort_pairs ps ! m) = snd (sort_pairs ps ! k)
           \<and> (\<forall>j < length (sort_pairs ps). sort_pairs ps ! j = sort_pairs ps ! m \<longrightarrow> j < k)"
  using sort_pairs_placed [of ps] assms unfolding placed_ok_def by blast

lemma sort_pairs_producer:
  assumes "k < length (sort_pairs ps)"
    and "snd (sort_pairs ps ! k) \<in> fst ` set ps"
  shows "\<exists>j < k. fst (sort_pairs ps ! j) = snd (sort_pairs ps ! k)"
  using sort_pairs_producer_copies [OF assms] by blast

lemma one_type_eq:
  assumes "one_type ps" and "p \<in> set ps" and "q \<in> set ps" and "fst p = fst q"
  shows "p = q"
proof -
  from assms have "snd p = snd q" unfolding one_type_def by blast
  with assms(4) show ?thesis by (simp add: prod_eq_iff)
qed

lemma sort_pairs_order:
  assumes d: "one_type ps"
    and j: "j < length (sort_pairs ps)" and k: "k < length (sort_pairs ps)"
    and e: "snd (sort_pairs ps ! k) = fst (sort_pairs ps ! j)"
  shows "j < k"
proof -
  let ?R = "sort_pairs ps"
  have jin: "?R ! j \<in> set ps" using j sort_pairs_subset nth_mem by blast
  then have "snd (?R ! k) \<in> fst ` set ps" unfolding e by simp
  from sort_pairs_producer_copies [OF k this]
  obtain m where m: "m < k" "fst (?R ! m) = snd (?R ! k)"
    and all: "\<forall>j < length ?R. ?R ! j = ?R ! m \<longrightarrow> j < k" by blast
  have "m < length ?R" using m(1) k by simp
  then have min: "?R ! m \<in> set ps" using sort_pairs_subset nth_mem by blast
  have "fst (?R ! j) = fst (?R ! m)" using m(2) e by simp
  with d jin min have "?R ! j = ?R ! m" by (rule one_type_eq)
  with all j show ?thesis by blast
qed

lemma sort_pairs_idem: "sort_pairs (sort_pairs ps) = sort_pairs ps"
proof -
  let ?N = "fst ` set ps"
  let ?B = "filter (\<lambda>p. snd p \<notin> ?N) ps"
  let ?P = "filter (\<lambda>p. snd p \<in> ?N) ps"
  let ?R = "sort_pairs ps"
  let ?N' = "fst ` set ?R"
  obtain X where X: "expand 0 ?B ?P = ?B @ X" "set X \<subseteq> set ?P"
    using expand_prefix by blast
  then have R: "?R = ?B @ X" by (simp add: sort_pairs_expand)
  have sub: "?N' \<subseteq> ?N" using sort_pairs_subset by blast
  have xin: "snd x \<in> ?N'" if "x \<in> set X" for x
  proof -
    from that have "x \<in> set ?R" unfolding R by simp
    then obtain k where k: "k < length ?R" "?R ! k = x" by (auto simp: in_set_conv_nth)
    have "snd (?R ! k) \<in> ?N" using that X(2) k(2) by auto
    from sort_pairs_producer [OF k(1) this] obtain j where "j < k" "fst (?R ! j) = snd x"
      using k(2) by auto
    moreover from this k(1) have "?R ! j \<in> set ?R" by simp
    ultimately show ?thesis by (metis imageI)
  qed
  have bout: "snd b \<notin> ?N'" if "b \<in> set ?B" for b using that sub by auto
  have f1: "filter (\<lambda>p. snd p \<notin> ?N') ?R = ?B"
  proof -
    have "filter (\<lambda>p. snd p \<notin> ?N') ?B = ?B" by (rule filter_True) (use bout in blast)
    moreover have "filter (\<lambda>p. snd p \<notin> ?N') X = []" by (rule filter_False) (use xin in blast)
    ultimately show ?thesis by (subst (2) R) (simp only: filter_append append_Nil2)
  qed
  have f2: "filter (\<lambda>p. snd p \<in> ?N') ?R = X"
  proof -
    have "filter (\<lambda>p. snd p \<in> ?N') ?B = []" by (rule filter_False) (use bout in blast)
    moreover have "filter (\<lambda>p. snd p \<in> ?N') X = X" by (rule filter_True) (use xin in blast)
    ultimately show ?thesis by (subst (2) R) (simp only: filter_append append_Nil)
  qed
  have "sort_pairs ?R = expand 0 ?B X" by (subst sort_pairs_expand) (simp only: f1 f2)
  also have "\<dots> = ?B @ X" using X(1) by (rule expand_idem)
  finally show ?thesis using R by simp
qed

lemma reachable_placed: "p \<in> reachable ps \<Longrightarrow> p \<in> set (sort_pairs ps)"
proof (induction rule: reachable.induct)
  case (base p)
  then have "p \<in> set (filter (\<lambda>p. snd p \<notin> fst ` set ps) ps)" by simp
  moreover obtain X where "sort_pairs ps = filter (\<lambda>p. snd p \<notin> fst ` set ps) ps @ X"
    unfolding sort_pairs_expand using expand_prefix by blast
  ultimately show ?case by simp
next
  case (unlocked p q)
  let ?B = "filter (\<lambda>p. snd p \<notin> fst ` set ps) ps"
  let ?P = "filter (\<lambda>p. snd p \<in> fst ` set ps) ps"
  have "p \<in> set ps" using unlocked.IH sort_pairs_subset by blast
  with unlocked.hyps have q: "q \<in> set ?P" by simp
  have p: "p \<in> set (expand 0 ?B ?P)" using unlocked.IH unfolding sort_pairs_expand .
  have "q \<in> set (expand 0 ?B ?P)"
  proof (rule expand_complete [where p = p])
    show "0 \<le> length ?B" by simp
    show "\<forall>j<0. \<forall>t\<in>set ?P. snd t \<noteq> fst (?B ! j)" by simp
    show "q \<in> set ?P" by (rule q)
    show "p \<in> set (expand 0 ?B ?P)" by (rule p)
    show "snd q = fst p" by (rule unlocked.hyps(3))
  qed
  then show ?case unfolding sort_pairs_expand .
qed

lemma placed_reachable:
  assumes "k < length (sort_pairs ps)"
  shows "sort_pairs ps ! k \<in> reachable ps"
  using assms
proof (induction k rule: less_induct)
  case (less k)
  let ?R = "sort_pairs ps"
  have mem: "?R ! k \<in> set ps" using less.prems sort_pairs_subset nth_mem by blast
  show ?case
  proof (cases "snd (?R ! k) \<in> fst ` set ps")
    case False
    with mem show ?thesis by (rule reachable.base)
  next
    case True
    from sort_pairs_producer [OF less.prems True]
    obtain j where j: "j < k" "fst (?R ! j) = snd (?R ! k)" by blast
    with less.prems have "j < length ?R" by simp
    with less.IH [OF j(1)] have "?R ! j \<in> reachable ps" by simp
    then show ?thesis using mem j(2) [symmetric] by (rule reachable.unlocked)
  qed
qed

lemma sort_pairs_reachable: "set (sort_pairs ps) = reachable ps"
proof
  show "set (sort_pairs ps) \<subseteq> reachable ps"
  proof
    fix p assume "p \<in> set (sort_pairs ps)"
    then obtain k where "k < length (sort_pairs ps)" "sort_pairs ps ! k = p"
      by (auto simp: in_set_conv_nth)
    with placed_reachable [of k ps] show "p \<in> reachable ps" by simp
  qed
  show "reachable ps \<subseteq> set (sort_pairs ps)" using reachable_placed by blast
qed

lemma cycle_not_placed:
  assumes d: "one_type ps" and S: "S \<subseteq> set ps"
    and cyc: "\<forall>p \<in> S. \<exists>q \<in> S. snd p = fst q"
    and k: "k < length (sort_pairs ps)"
  shows "sort_pairs ps ! k \<notin> S"
  using k
proof (induction k rule: less_induct)
  case (less k)
  let ?R = "sort_pairs ps"
  show ?case
  proof
    assume inS: "?R ! k \<in> S"
    with cyc obtain q where q: "q \<in> S" "snd (?R ! k) = fst q" by blast
    with S have "snd (?R ! k) \<in> fst ` set ps" by auto
    from sort_pairs_producer [OF less.prems this]
    obtain j where j: "j < k" "fst (?R ! j) = snd (?R ! k)" by blast
    with less.prems have jl: "j < length ?R" by simp
    then have "?R ! j \<in> set ps" using sort_pairs_subset nth_mem by blast
    moreover have "q \<in> set ps" using q(1) S by blast
    moreover have "fst (?R ! j) = fst q" using j(2) q(2) by simp
    ultimately have "?R ! j = q" using d by (intro one_type_eq)
    with less.IH [OF j(1) jl] q(1) show False by simp
  qed
qed

subsection \<open>The output text\<close>

lemma sort_typedefs_parsed:
  "parse_typedefs (py_split_on newline x) [] = Inr typedefs \<Longrightarrow>
   sort_typedefs x = Inr (join [newline] (map format_typedef (sort_pairs typedefs)))"
  by (simp add: sort_typedefs_def)

lemma sort_pairs_wf:
  assumes "parse_typedefs ls [] = Inr typedefs" and "p \<in> set (sort_pairs typedefs)"
  shows "wf_pair p"
  using parse_typedefs_wf [OF assms(1)] assms(2) sort_pairs_subset by auto

lemma format_inj:
  assumes "wf_pair p" and "wf_pair q" and "format_typedef p = format_typedef q"
  shows "p = q"
proof -
  have "Inr p = parse_typedef_line (format_typedef p)" using assms(1) by (rule parse_format [symmetric])
  also have "\<dots> = parse_typedef_line (format_typedef q)" by (simp only: assms(3))
  also have "\<dots> = Inr q" using assms(2) by (rule parse_format)
  finally show ?thesis by simp
qed

lemma output_lines:
  assumes "\<forall>p \<in> set r. wf_pair p" and "r \<noteq> []"
  shows "py_split_on newline (join [newline] (map format_typedef r)) = map format_typedef r"
  unfolding py_split_on_def
  using assms by (intro split_on_join) (auto simp: format_no_newline)

text \<open>The line of a parsed pair sits in the output at the pair's index in \<open>sort_pairs\<close>.\<close>

lemma output_line_index:
  assumes parse: "parse_typedefs (py_split_on newline x) [] = Inr typedefs"
    and out: "sort_typedefs x = Inr out"
    and j: "j < length (py_split_on newline out)"
    and line: "py_split_on newline out ! j = format_typedef p"
    and p: "p \<in> set typedefs"
  shows "j < length (sort_pairs typedefs) \<and> sort_pairs typedefs ! j = p"
proof -
  let ?R = "sort_pairs typedefs"
  have o: "out = join [newline] (map format_typedef ?R)"
    using sort_typedefs_parsed [OF parse] out by simp
  have wf: "\<forall>q \<in> set ?R. wf_pair q" using sort_pairs_wf [OF parse] by blast
  have ne: "?R \<noteq> []"
  proof
    assume "?R = []"
    with o j line show False by (simp add: py_split_on_def format_nonempty [symmetric])
  qed
  have lines: "py_split_on newline out = map format_typedef ?R"
    unfolding o using wf ne by (rule output_lines)
  with j have jl: "j < length ?R" by simp
  with lines line have "format_typedef (?R ! j) = format_typedef p" by simp
  moreover have "wf_pair (?R ! j)" using wf jl by simp
  moreover have "wf_pair p" using parse_typedefs_wf [OF parse] p by simp
  ultimately have "?R ! j = p" by (rule format_inj [rotated 2])
  with jl show ?thesis by simp
qed

section \<open>Claims about the typedef sorter\<close>

text \<open>
  C2, amended. Let \<open>x\<close> be a block that \<open>sort_typedefs\<close> parses (every line that is not
  empty ends with \<open>;\<close> and starts with the token \<open>typedef\<close>) and in which no new name is
  defined with two different old types; a line may be repeated. If the parsed pairs \<open>p\<close>
  and \<open>q\<close> both have a line in the output, and the old type of \<open>q\<close> is the new name of
  \<open>p\<close>, then every line of \<open>p\<close> comes strictly before every line of \<open>q\<close>.
\<close>

theorem sort_typedefs_producer_first:
  assumes "parse_typedefs (py_split_on newline x) [] = Inr typedefs"
    and "one_type typedefs"
    and "sort_typedefs x = Inr out"
    and "p \<in> set typedefs" and "q \<in> set typedefs"
    and "j < length (py_split_on newline out)" and "py_split_on newline out ! j = format_typedef p"
    and "k < length (py_split_on newline out)" and "py_split_on newline out ! k = format_typedef q"
    and "snd q = fst p"
  shows "j < k"
proof -
  from output_line_index [OF assms(1,3,6,7,4)]
  have j: "j < length (sort_pairs typedefs)" "sort_pairs typedefs ! j = p" by simp_all
  from output_line_index [OF assms(1,3,8,9,5)]
  have k: "k < length (sort_pairs typedefs)" "sort_pairs typedefs ! k = q" by simp_all
  show ?thesis
    using assms(2) j(1) k(1) by (rule sort_pairs_order) (simp add: j(2) k(2) assms(10))
qed

text \<open>The theorem at the block \<open>typedef A B; typedef int A; typedef int A;\<close>, one declaration
  per line, which repeats a line: the output is \<open>typedef int A; typedef int A; typedef A B;\<close>,
  the second line of \<open>A\<close> is line 1 and the line of \<open>B\<close> is line 2.\<close>

theorem sort_typedefs_producer_first_witness:
  "parse_typedefs (py_split_on newline
       (''typedef A B;'' @ [newline] @ ''typedef int A;'' @ [newline] @ ''typedef int A;'')) []
     = Inr [(''B'', ''A''), (''A'', ''int''), (''A'', ''int'')]
   \<and> sort_typedefs (''typedef A B;'' @ [newline] @ ''typedef int A;'' @ [newline] @ ''typedef int A;'')
     = Inr (''typedef int A;'' @ [newline] @ ''typedef int A;'' @ [newline] @ ''typedef A B;'')
   \<and> py_split_on newline
         (''typedef int A;'' @ [newline] @ ''typedef int A;'' @ [newline] @ ''typedef A B;'') ! 1
       = format_typedef (''A'', ''int'')
   \<and> py_split_on newline
         (''typedef int A;'' @ [newline] @ ''typedef int A;'' @ [newline] @ ''typedef A B;'') ! 2
       = format_typedef (''B'', ''A'')
   \<and> snd (''B'', ''A'') = fst (''A'', ''int'')
   \<and> (1 :: nat) < 2"
proof -
  let ?x = "''typedef A B;'' @ [newline] @ ''typedef int A;'' @ [newline] @ ''typedef int A;''"
  let ?out = "''typedef int A;'' @ [newline] @ ''typedef int A;'' @ [newline] @ ''typedef A B;''"
  let ?ps = "[(''B'', ''A''), (''A'', ''int''), (''A'', ''int'')]"
  have h1: "parse_typedefs (py_split_on newline ?x) [] = Inr ?ps" by code_simp
  have h2: "one_type ?ps" by (simp add: one_type_def)
  have h3: "sort_typedefs ?x = Inr ?out" by code_simp
  have h4: "(''A'', ''int'') \<in> set ?ps" by simp
  have h5: "(''B'', ''A'') \<in> set ?ps" by simp
  have h6: "1 < length (py_split_on newline ?out)" by code_simp
  have h7: "py_split_on newline ?out ! 1 = format_typedef (''A'', ''int'')" by code_simp
  have h8: "2 < length (py_split_on newline ?out)" by code_simp
  have h9: "py_split_on newline ?out ! 2 = format_typedef (''B'', ''A'')" by code_simp
  have h10: "snd (''B'', ''A'') = fst (''A'', ''int'')" by simp
  from sort_typedefs_producer_first [OF h1 h2 h3 h4 h5 h6 h7 h8 h9 h10]
  have "(1 :: nat) < 2" .
  with h1 h3 h7 h9 h10 show ?thesis by blast
qed

text \<open>
  C2 as it is written, without the condition on the new names, fails on the block
  \<open>typedef int A; typedef A B; typedef B A;\<close> (one declaration per line), which gives the
  name \<open>A\<close> the old types \<open>int\<close> and \<open>B\<close> and comes back unchanged: the old type of the pair \<open>(B, A)\<close> is the new name of the pair \<open>(A, B)\<close>, so
  the line of \<open>(A, B)\<close> should come first; but the line of \<open>(B, A)\<close> is line 1 of the
  output and the line of \<open>(A, B)\<close> is line 2.
\<close>

theorem sort_typedefs_redefined_name_counterexample:
  "parse_typedefs (py_split_on newline
       (''typedef int A;'' @ [newline] @ ''typedef A B;'' @ [newline] @ ''typedef B A;'')) []
     = Inr [(''A'', ''int''), (''B'', ''A''), (''A'', ''B'')]
   \<and> sort_typedefs (''typedef int A;'' @ [newline] @ ''typedef A B;'' @ [newline] @ ''typedef B A;'')
     = Inr (''typedef int A;'' @ [newline] @ ''typedef A B;'' @ [newline] @ ''typedef B A;'')
   \<and> py_split_on newline
         (''typedef int A;'' @ [newline] @ ''typedef A B;'' @ [newline] @ ''typedef B A;'') ! 1
       = format_typedef (''B'', ''A'')
   \<and> py_split_on newline
         (''typedef int A;'' @ [newline] @ ''typedef A B;'' @ [newline] @ ''typedef B A;'') ! 2
       = format_typedef (''A'', ''B'')
   \<and> snd (''B'', ''A'') = fst (''A'', ''B'')"
  by code_simp

text \<open>
  C4, amended. Let \<open>x\<close> be a block that \<open>sort_typedefs\<close> parses and in which no new name
  is defined with two different old types (a line may be repeated), and let \<open>S\<close> be a set of
  its pairs in which the old type of every pair
  is the new name of a pair of \<open>S\<close>. Then \<open>sort_typedefs\<close> returns a text (it raises
  nothing), no pair of \<open>S\<close> has its line in that text, and every pair that is a base case or
  can be reached from a base case has its line there.
\<close>

theorem sort_typedefs_drops_cycles:
  assumes parse: "parse_typedefs (py_split_on newline x) [] = Inr typedefs"
    and d: "one_type typedefs"
    and S: "S \<subseteq> set typedefs"
    and cyc: "\<forall>p \<in> S. \<exists>q \<in> S. snd p = fst q"
  shows "\<exists>out. sort_typedefs x = Inr out
           \<and> (\<forall>p \<in> S. format_typedef p \<notin> set (py_split_on newline out))
           \<and> (\<forall>p \<in> reachable typedefs. format_typedef p \<in> set (py_split_on newline out))"
proof -
  let ?R = "sort_pairs typedefs"
  let ?out = "join [newline] (map format_typedef ?R)"
  have out: "sort_typedefs x = Inr ?out" using parse by (rule sort_typedefs_parsed)
  have wf: "\<forall>q \<in> set ?R. wf_pair q" using sort_pairs_wf [OF parse] by blast
  have a: "format_typedef p \<notin> set (py_split_on newline ?out)" if p: "p \<in> S" for p
  proof
    assume "format_typedef p \<in> set (py_split_on newline ?out)"
    then obtain j where j: "j < length (py_split_on newline ?out)"
      "py_split_on newline ?out ! j = format_typedef p" by (auto simp: in_set_conv_nth)
    have "p \<in> set typedefs" using p S by blast
    from output_line_index [OF parse out j this]
    have "j < length ?R" "?R ! j = p" by simp_all
    with cycle_not_placed [OF d S cyc, of j] p show False by simp
  qed
  have b: "format_typedef p \<in> set (py_split_on newline ?out)" if p: "p \<in> reachable typedefs" for p
  proof -
    have pr: "p \<in> set ?R" using p by (rule reachable_placed)
    then have "?R \<noteq> []" by auto
    with wf have "py_split_on newline ?out = map format_typedef ?R" by (rule output_lines)
    with pr show ?thesis by simp
  qed
  from out a b show ?thesis by blast
qed

text \<open>The theorem at the block
  \<open>typedef A B; typedef B A; typedef int C; typedef int C; typedef C D;\<close>, which repeats a
  line: the output is \<open>typedef int C; typedef int C; typedef C D;\<close>.\<close>

theorem sort_typedefs_drops_cycles_witness:
  "parse_typedefs (py_split_on newline
       (''typedef A B;'' @ [newline] @ ''typedef B A;'' @ [newline] @ ''typedef int C;''
          @ [newline] @ ''typedef int C;'' @ [newline] @ ''typedef C D;'')) []
     = Inr [(''B'', ''A''), (''A'', ''B''), (''C'', ''int''), (''C'', ''int''), (''D'', ''C'')]
   \<and> snd (''B'', ''A'') = fst (''A'', ''B'') \<and> snd (''A'', ''B'') = fst (''B'', ''A'')
   \<and> sort_typedefs (''typedef A B;'' @ [newline] @ ''typedef B A;'' @ [newline]
          @ ''typedef int C;'' @ [newline] @ ''typedef int C;'' @ [newline] @ ''typedef C D;'')
     = Inr (''typedef int C;'' @ [newline] @ ''typedef int C;'' @ [newline] @ ''typedef C D;'')
   \<and> format_typedef (''B'', ''A'')
         \<notin> set (py_split_on newline
                  (''typedef int C;'' @ [newline] @ ''typedef int C;'' @ [newline] @ ''typedef C D;''))
   \<and> format_typedef (''A'', ''B'')
         \<notin> set (py_split_on newline
                  (''typedef int C;'' @ [newline] @ ''typedef int C;'' @ [newline] @ ''typedef C D;''))
   \<and> format_typedef (''D'', ''C'')
         \<in> set (py_split_on newline
                  (''typedef int C;'' @ [newline] @ ''typedef int C;'' @ [newline] @ ''typedef C D;''))"
proof -
  let ?x = "''typedef A B;'' @ [newline] @ ''typedef B A;'' @ [newline] @ ''typedef int C;''
          @ [newline] @ ''typedef int C;'' @ [newline] @ ''typedef C D;''"
  let ?ps = "[(''B'', ''A''), (''A'', ''B''), (''C'', ''int''), (''C'', ''int''), (''D'', ''C'')]"
  let ?S = "{(''B'', ''A''), (''A'', ''B'')} :: typedef_pair set"
  let ?out = "''typedef int C;'' @ [newline] @ ''typedef int C;'' @ [newline] @ ''typedef C D;''"
  have h1: "parse_typedefs (py_split_on newline ?x) [] = Inr ?ps" by code_simp
  have h2: "one_type ?ps" by (simp add: one_type_def)
  have h3: "?S \<subseteq> set ?ps" by simp
  have h4: "\<forall>p \<in> ?S. \<exists>q \<in> ?S. snd p = fst q" by simp
  have out: "sort_typedefs ?x = Inr ?out" by code_simp
  have "(''C'', ''int'') \<in> reachable ?ps" by (rule reachable.base) simp_all
  then have r: "(''D'', ''C'') \<in> reachable ?ps" by (rule reachable.unlocked) simp_all
  from sort_typedefs_drops_cycles [OF h1 h2 h3 h4] out
  have "(\<forall>p \<in> ?S. format_typedef p \<notin> set (py_split_on newline ?out))
      \<and> (\<forall>p \<in> reachable ?ps. format_typedef p \<in> set (py_split_on newline ?out))"
    by simp
  with r have "format_typedef (''B'', ''A'') \<notin> set (py_split_on newline ?out)"
    "format_typedef (''A'', ''B'') \<notin> set (py_split_on newline ?out)"
    "format_typedef (''D'', ''C'') \<in> set (py_split_on newline ?out)" by blast+
  with h1 out show ?thesis by simp
qed

text \<open>
  C4 as it is written fails when a new name is defined with two different old types: in
  \<open>typedef long T; typedef T U; typedef U T;\<close> the pairs \<open>(U, T)\<close> and \<open>(T, U)\<close> form a
  cycle (the old type of each is the new name of the other), and the output is the whole
  block, with the lines of both.
\<close>

theorem sort_typedefs_cycle_kept_counterexample:
  "parse_typedefs (py_split_on newline
       (''typedef long T;'' @ [newline] @ ''typedef T U;'' @ [newline] @ ''typedef U T;'')) []
     = Inr [(''T'', ''long''), (''U'', ''T''), (''T'', ''U'')]
   \<and> snd (''U'', ''T'') = fst (''T'', ''U'') \<and> snd (''T'', ''U'') = fst (''U'', ''T'')
   \<and> sort_typedefs (''typedef long T;'' @ [newline] @ ''typedef T U;'' @ [newline] @ ''typedef U T;'')
     = Inr (''typedef long T;'' @ [newline] @ ''typedef T U;'' @ [newline] @ ''typedef U T;'')
   \<and> format_typedef (''U'', ''T'')
         \<in> set (py_split_on newline
                  (''typedef long T;'' @ [newline] @ ''typedef T U;'' @ [newline] @ ''typedef U T;''))
   \<and> format_typedef (''T'', ''U'')
         \<in> set (py_split_on newline
                  (''typedef long T;'' @ [newline] @ ''typedef T U;'' @ [newline] @ ''typedef U T;''))"
  by code_simp

text \<open>
  C5. \<open>sort_typedefs\<close> is idempotent: when it returns the text \<open>y\<close> for a block, it returns
  \<open>y\<close> for \<open>y\<close>.
\<close>

theorem sort_typedefs_idempotent:
  assumes "sort_typedefs x = Inr y"
  shows "sort_typedefs y = Inr y"
proof -
  from assms obtain typedefs where parse: "parse_typedefs (py_split_on newline x) [] = Inr typedefs"
    by (auto simp: sort_typedefs_def split: sum.splits)
  let ?R = "sort_pairs typedefs"
  have y: "y = join [newline] (map format_typedef ?R)"
    using sort_typedefs_parsed [OF parse] assms by simp
  have wf: "\<forall>q \<in> set ?R. wf_pair q" using sort_pairs_wf [OF parse] by blast
  show ?thesis
  proof (cases "?R = []")
    case True
    then have "y = []" using y by simp
    moreover have "sort_pairs [] = []" by (simp add: sort_pairs_expand expand_step)
    ultimately show ?thesis by (simp add: sort_typedefs_def py_split_on_def)
  next
    case False
    have "py_split_on newline y = map format_typedef ?R"
      unfolding y using wf False by (rule output_lines)
    moreover have "parse_typedefs (map format_typedef ?R) [] = Inr ([] @ ?R)"
      using wf by (rule parse_typedefs_format)
    ultimately have "parse_typedefs (py_split_on newline y) [] = Inr ?R" by simp
    from sort_typedefs_parsed [OF this] show ?thesis by (simp add: sort_pairs_idem y)
  qed
qed

text \<open>The theorem at the block \<open>typedef B C; typedef A B; typedef int A;\<close>.\<close>

theorem sort_typedefs_idempotent_witness:
  "sort_typedefs (''typedef B C;'' @ [newline] @ ''typedef A B;'' @ [newline] @ ''typedef int A;'')
     = Inr (''typedef int A;'' @ [newline] @ ''typedef A B;'' @ [newline] @ ''typedef B C;'')
   \<and> sort_typedefs (''typedef int A;'' @ [newline] @ ''typedef A B;'' @ [newline] @ ''typedef B C;'')
     = Inr (''typedef int A;'' @ [newline] @ ''typedef A B;'' @ [newline] @ ''typedef B C;'')"
proof -
  have h: "sort_typedefs (''typedef B C;'' @ [newline] @ ''typedef A B;'' @ [newline] @ ''typedef int A;'')
     = Inr (''typedef int A;'' @ [newline] @ ''typedef A B;'' @ [newline] @ ''typedef B C;'')"
    by code_simp
  from sort_typedefs_idempotent [OF h] h show ?thesis by blast
qed

section \<open>Proofs and claims: components\<close>

text \<open>
  C1, amended. For a component with resource name \<open>R\<close> and an architecture named \<open>A\<close>,
  \<open>ArchitectureComponent.parse\<close> looks for \<open>A-R/A-R.c\<close> first and for \<open>R-A.c\<close> second (the
  architecture's name comes first in the directory pattern and second in the file pattern), it
  gives the first of the two that \<open>Component.find\<close> resolves to the sectioned-file parser with
  the component's own configuration, and it fails, with a \<open>KeyError\<close> that names \<open>R\<close> and
  \<open>A\<close>, only when \<open>find\<close> resolves neither.
\<close>

theorem ArchitectureComponent_parse_patterns:
  "ArchitectureComponent_parse env self topdir (Arch arch) =
     (case Component_find env topdir
             (arch_name arch @ ''-'' @ resource_name self @ ''/''
                @ arch_name arch @ ''-'' @ resource_name self @ ''.c'') of
        Inr path \<Rightarrow> parse_sectioned_file env path (configuration self)
      | Inl e \<Rightarrow>
          (case Component_find env topdir (resource_name self @ ''-'' @ arch_name arch @ ''.c'') of
             Inr path \<Rightarrow> parse_sectioned_file env path (configuration self)
           | Inl e' \<Rightarrow> Inl (ArchComponentNotFound (resource_name self) (arch_name arch))))"
  by (simp add: ArchitectureComponent_parse_def split: sum.splits)

text \<open>
  C1 as it is written puts the resource name first in the directory pattern. With the
  resource \<open>ctx\<close> and the architecture \<open>arm\<close>, the file \<open>ctx-arm/ctx-arm.c\<close> exists, \<open>find\<close>
  resolves that name, and the file parses; yet \<open>parse\<close> fails: it looks for
  \<open>arm-ctx/arm-ctx.c\<close> and \<open>ctx-arm.c\<close>.
\<close>

theorem ArchitectureComponent_parse_resource_first_counterexample:
  "Component_find (example_env [(''top/components/ctx-arm/ctx-arm.c'', example_fragment [])])
       ''top'' (''ctx'' @ ''-'' @ ''arm'' @ ''/'' @ ''ctx'' @ ''-'' @ ''arm'' @ ''.c'')
     = Inr ''top/components/ctx-arm/ctx-arm.c''
   \<and> parse_sectioned_file (example_env [(''top/components/ctx-arm/ctx-arm.c'', example_fragment [])])
       ''top/components/ctx-arm/ctx-arm.c'' Map.empty
     = Inr (map (\<lambda>s. (s, [])) REQUIRED_COMPONENT_SECTIONS)
   \<and> ArchitectureComponent_parse
       (example_env [(''top/components/ctx-arm/ctx-arm.c'', example_fragment [])])
       (ArchitectureComponent ''ctx'' ''ctx'' Map.empty) ''top''
       (Arch \<lparr>arch_name = ''arm'', arch_configuration = Map.empty\<rparr>)
     = Inl (ArchComponentNotFound ''ctx'' ''arm'')"
  by code_simp

lemma render_sections_cong:
  assumes "\<forall>d n. r' d config n = pystache_render env d config n"
  shows "render_sections (env\<lparr>pystache_render := r'\<rparr>) fn config sections
       = render_sections env fn config sections"
  using assms by (induction sections) (auto simp: render_data_def split: sum.splits)

lemma parse_sectioned_file_cong:
  assumes "\<forall>d n. r' d config n = pystache_render env d config n"
  shows "parse_sectioned_file (env\<lparr>pystache_render := r'\<rparr>) fn config
       = parse_sectioned_file env fn config"
  using render_sections_cong [of r' config env fn] assms
  by (simp add: parse_sectioned_file_def split: option.splits sum.splits)

lemma Component_find_render:
  "Component_find (env\<lparr>pystache_render := r'\<rparr>) topdir name = Component_find env topdir name"
  by (simp add: Component_find_def)

lemma first_found_render:
  "first_found (env\<lparr>pystache_render := r'\<rparr>) topdir names = first_found env topdir names"
  by (induction names) (simp_all add: Component_find_render split: sum.splits)

text \<open>
  C3, amended. \<open>ArchitectureComponent.parse\<close> supplies the component's own base configuration
  to the templating pass, and nothing of the architecture's configuration mapping: the result
  is the same for every engine that agrees with the given one on that configuration, and it
  is the same whatever the configuration mapping of \<open>arch\<close> is.
\<close>

theorem ArchitectureComponent_parse_base_configuration:
  assumes "\<forall>d n. r' d (configuration self) n = pystache_render env d (configuration self) n"
  shows "ArchitectureComponent_parse (env\<lparr>pystache_render := r'\<rparr>) self topdir (Arch arch)
           = ArchitectureComponent_parse env self topdir (Arch arch)
       \<and> ArchitectureComponent_parse env self topdir (Arch (arch\<lparr>arch_configuration := c\<rparr>))
           = ArchitectureComponent_parse env self topdir (Arch arch)"
  using parse_sectioned_file_cong [of r' "configuration self" env] assms
  by (simp add: ArchitectureComponent_parse_def first_found_render del: first_found.simps
      split: option.splits)

text \<open>The theorem at a fragment whose \<open>headers\<close> section is the tag \<open>[[irq]]\<close>, a component
  with an empty configuration, and an engine changed on every configuration but the empty
  one.\<close>

theorem ArchitectureComponent_parse_base_configuration_witness:
  "(\<forall>d n. (\<lambda>d config n. if config = Map.empty then one_tag_render d config n else Inr ''x'')
             d (configuration (ArchitectureComponent ''ctx'' ''ctx'' Map.empty)) n
          = pystache_render (example_env [(''top/components/ctx-arm.c'', example_fragment ''[[irq]]'')])
              d (configuration (ArchitectureComponent ''ctx'' ''ctx'' Map.empty)) n)
   \<and> ArchitectureComponent_parse
       ((example_env [(''top/components/ctx-arm.c'', example_fragment ''[[irq]]'')])
          \<lparr>pystache_render :=
             (\<lambda>d config n. if config = Map.empty then one_tag_render d config n else Inr ''x'')\<rparr>)
       (ArchitectureComponent ''ctx'' ''ctx'' Map.empty) ''top''
       (Arch \<lparr>arch_name = ''arm'', arch_configuration = [''irq'' \<mapsto> ''8'']\<rparr>)
     = Inl (RenderFailed ''irq'')
   \<and> ArchitectureComponent_parse
       (example_env [(''top/components/ctx-arm.c'', example_fragment ''[[irq]]'')])
       (ArchitectureComponent ''ctx'' ''ctx'' Map.empty) ''top''
       (Arch (\<lparr>arch_name = ''arm'', arch_configuration = [''irq'' \<mapsto> ''8'']\<rparr>
                \<lparr>arch_configuration := Map.empty\<rparr>))
     = Inl (RenderFailed ''irq'')"
proof -
  let ?env = "example_env [(''top/components/ctx-arm.c'', example_fragment ''[[irq]]'')]"
  let ?self = "ArchitectureComponent ''ctx'' ''ctx'' Map.empty :: string component"
  let ?r = "\<lambda>d (config :: string config) n.
              if config = Map.empty then one_tag_render d config n else Inr ''x''"
  let ?arch = "\<lparr>arch_name = ''arm'', arch_configuration = [''irq'' \<mapsto> ''8'']\<rparr>"
  have h: "\<forall>d n. ?r d (configuration ?self) n = pystache_render ?env d (configuration ?self) n"
    by (simp add: example_env_def)
  have v: "ArchitectureComponent_parse ?env ?self ''top'' (Arch ?arch) = Inl (RenderFailed ''irq'')"
    by code_simp
  have "ArchitectureComponent_parse (?env\<lparr>pystache_render := ?r\<rparr>) ?self ''top'' (Arch ?arch)
           = ArchitectureComponent_parse ?env ?self ''top'' (Arch ?arch)
       \<and> ArchitectureComponent_parse ?env ?self ''top'' (Arch (?arch\<lparr>arch_configuration := Map.empty\<rparr>))
           = ArchitectureComponent_parse ?env ?self ''top'' (Arch ?arch)"
    using h by (rule ArchitectureComponent_parse_base_configuration)
  with v h show ?thesis by simp
qed

text \<open>
  C3 as it is written fails: the architecture's configuration binds \<open>irq\<close>, the fragment
  renders with that configuration, and \<open>parse\<close> fails in the engine, because the tag \<open>irq\<close>
  has no value in the configuration that it supplies.
\<close>

theorem ArchitectureComponent_parse_arch_configuration_counterexample:
  "parse_sectioned_file (example_env [(''top/components/ctx-arm.c'', example_fragment ''[[irq]]'')])
       ''top/components/ctx-arm.c'' [''irq'' \<mapsto> ''8'']
     = Inr (map (\<lambda>s. (s, if s = ''headers'' then ''8'' else [])) REQUIRED_COMPONENT_SECTIONS)
   \<and> ArchitectureComponent_parse
       (example_env [(''top/components/ctx-arm.c'', example_fragment ''[[irq]]'')])
       (ArchitectureComponent ''ctx'' ''ctx'' Map.empty) ''top''
       (Arch \<lparr>arch_name = ''arm'', arch_configuration = [''irq'' \<mapsto> ''8'']\<rparr>)
     = Inl (RenderFailed ''irq'')"
  by code_simp

text \<open>
  C9. When the second argument of \<open>Component.parse\<close> is not a dictionary, \<open>parse\<close> finds the
  fragment and gives it to the sectioned-file parser with the component's base configuration,
  unchanged; the result is the one for an empty dictionary, so nothing fails on the type of
  the argument. \<open>get_module_sections\<close> calls \<open>parse\<close> with the architecture, which is such
  an argument.
\<close>

theorem Component_parse_not_dict:
  assumes "\<forall>d. arg \<noteq> Dict d"
  shows "Component_parse env self topdir arg =
           (case first_found env topdir
                   [resource_name self @ ''.c'',
                    resource_name self @ ''/'' @ resource_name self @ ''.c''] of
              None \<Rightarrow> Inl (ComponentNotFound (resource_name self))
            | Some component \<Rightarrow> parse_sectioned_file env component (configuration self))
       \<and> Component_parse env self topdir arg = Component_parse env self topdir (Dict Map.empty)
       \<and> parse env (Component n r c) topdir (Arch arch)
           = Component_parse env (Component n r c) topdir (Dict Map.empty)"
  using assms by (cases arg) (simp_all add: Component_parse_def parse_def del: first_found.simps)

text \<open>The theorem at an architecture whose configuration binds \<open>irq\<close> to 8 and a component
  whose base configuration binds it to 4: the section is rendered with 4.\<close>

theorem Component_parse_not_dict_witness:
  "(\<forall>d. Arch \<lparr>arch_name = ''arm'', arch_configuration = [''irq'' \<mapsto> ''8'']\<rparr> \<noteq> Dict d)
   \<and> Component_parse (example_env [(''top/components/sched.c'', example_fragment ''[[irq]]'')])
       (Component ''sched'' ''sched'' [''irq'' \<mapsto> ''4'']) ''top''
       (Arch \<lparr>arch_name = ''arm'', arch_configuration = [''irq'' \<mapsto> ''8'']\<rparr>)
     = Inr (map (\<lambda>s. (s, if s = ''headers'' then ''4'' else [])) REQUIRED_COMPONENT_SECTIONS)"
proof -
  let ?env = "example_env [(''top/components/sched.c'', example_fragment ''[[irq]]'')]"
  let ?self = "Component ''sched'' ''sched'' [''irq'' \<mapsto> ''4'']"
  let ?arg = "Arch \<lparr>arch_name = ''arm'', arch_configuration = [''irq'' \<mapsto> ''8'']\<rparr>"
  have h: "\<forall>d. ?arg \<noteq> Dict d" by simp
  have v: "Component_parse ?env ?self ''top'' (Dict Map.empty)
     = Inr (map (\<lambda>s. (s, if s = ''headers'' then ''4'' else [])) REQUIRED_COMPONENT_SECTIONS)"
    by code_simp
  have "Component_parse ?env ?self ''top'' ?arg = Component_parse ?env ?self ''top'' (Dict Map.empty)"
    using Component_parse_not_dict [OF h, of ?env ?self "''top''"] by blast
  with v h show ?thesis by simp
qed

lemma map_of_dict_set: "map_of (dict_set k v d) = (map_of d)(k \<mapsto> v)"
  by (induction d) (auto simp: fun_eq_iff)

lemma map_of_append_line:
  "map_of (append_line s line d) n =
     (if n = s then map_option (\<lambda>v. v @ [line]) (map_of d n) else map_of d n)"
  by (induction d) (auto simp: append_line_def)

lemma scan_lines_append:
  "scan_lines (xs @ ys) st = scan_lines ys (scan_lines xs st)"
proof (induction xs arbitrary: st)
  case Nil
  then show ?case by (cases st) simp
next
  case (Cons x xs)
  then show ?case by (cases st) (simp add: Let_def split: option.splits)
qed

text \<open>While another section is current, and no marker names \<open>n\<close>, the binding of \<open>n\<close> stays.\<close>

lemma scan_lines_other:
  assumes "\<forall>l \<in> set post. \<not> (is_marker (rstrip l) \<and> marker_section (rstrip l) = n)"
    and "current \<noteq> Some n"
  shows "map_of (fst (scan_lines post (sections, current))) n = map_of sections n"
  using assms
proof (induction post arbitrary: sections current)
  case Nil
  then show ?case by simp
next
  case (Cons l post)
  then have rest: "\<forall>l \<in> set post. \<not> (is_marker (rstrip l) \<and> marker_section (rstrip l) = n)"
    by simp
  show ?case
  proof (cases "is_marker (rstrip l)")
    case True
    with Cons.prems(1) have ne: "marker_section (rstrip l) \<noteq> n" by simp
    then have "Some (marker_section (rstrip l)) \<noteq> Some n" by simp
    from Cons.IH [OF rest this] True ne show ?thesis by (simp add: map_of_dict_set Let_def)
  next
    case False
    show ?thesis
    proof (cases current)
      case None
      with False Cons.IH [OF rest, of None] show ?thesis by simp
    next
      case (Some s)
      with Cons.prems(2) have "s \<noteq> n" by simp
      with False Some Cons.IH [OF rest Cons.prems(2)] show ?thesis
        by (simp add: map_of_append_line)
    qed
  qed
qed

text \<open>While \<open>n\<close> is current, the lines up to the next marker are appended to its binding.\<close>

lemma scan_lines_current:
  assumes "\<forall>l \<in> set post. \<not> (is_marker (rstrip l) \<and> marker_section (rstrip l) = n)"
    and "map_of sections n = Some acc"
  shows "map_of (fst (scan_lines post (sections, Some n))) n
       = Some (acc @ map rstrip (takeWhile (\<lambda>l. \<not> is_marker (rstrip l)) post))"
  using assms
proof (induction post arbitrary: sections acc)
  case Nil
  then show ?case by simp
next
  case (Cons l post)
  then have rest: "\<forall>l \<in> set post. \<not> (is_marker (rstrip l) \<and> marker_section (rstrip l) = n)"
    by simp
  show ?case
  proof (cases "is_marker (rstrip l)")
    case True
    with Cons.prems(1) have ne: "marker_section (rstrip l) \<noteq> n" by simp
    then have "Some (marker_section (rstrip l)) \<noteq> Some n" by simp
    from scan_lines_other [OF rest this] True ne Cons.prems(2) show ?thesis
      by (simp add: map_of_dict_set Let_def)
  next
    case False
    have "map_of (append_line n (rstrip l) sections) n = Some (acc @ [rstrip l])"
      using Cons.prems(2) by (simp add: map_of_append_line)
    from Cons.IH [OF rest this] False show ?thesis by simp
  qed
qed

lemma scan_lines_last_marker:
  assumes "is_marker (rstrip m)" and "marker_section (rstrip m) = n"
    and "\<forall>l \<in> set post. \<not> (is_marker (rstrip l) \<and> marker_section (rstrip l) = n)"
  shows "map_of (fst (scan_lines (pre @ m # post) st)) n
       = Some (map rstrip (takeWhile (\<lambda>l. \<not> is_marker (rstrip l)) post))"
proof -
  obtain sections current where st: "scan_lines pre st = (sections, current)"
    by (cases "scan_lines pre st")
  have "scan_lines (pre @ m # post) st = scan_lines post (dict_set n [] sections, Some n)"
    using assms(1,2) by (simp add: scan_lines_append st)
  moreover have "map_of (dict_set n [] sections) n = Some []" by (simp add: map_of_dict_set)
  ultimately show ?thesis using scan_lines_current [OF assms(3), of "dict_set n [] sections" "[]"]
    by simp
qed

lemma render_sections_lookup:
  assumes "render_sections env fn config sections = Inr rendered"
    and "map_of sections n = Some v"
  shows "\<exists>data. map_of rendered n = Some data
           \<and> render_data env (rstrip (join [newline] v)) (fn @ '': Section '' @ n) config = Inr data"
  using assms
proof (induction sections arbitrary: rendered)
  case Nil
  then show ?case by simp
next
  case (Cons kv sections)
  obtain k val where kv: "kv = (k, val)" by (cases kv)
  from Cons.prems(1) obtain data rest where
    d: "render_data env (rstrip (join [newline] val)) (fn @ '': Section '' @ k) config = Inr data"
    and r: "render_sections env fn config sections = Inr rest"
    and out: "rendered = (k, data) # rest"
    unfolding kv by (auto split: sum.splits)
  show ?case
  proof (cases "n = k")
    case True
    with Cons.prems(2) d out show ?thesis by (simp add: kv)
  next
    case False
    with Cons.prems(2) have "map_of sections n = Some v" by (simp add: kv)
    from Cons.IH [OF r this] False out show ?thesis by simp
  qed
qed

lemma parsed_section_after_last_marker:
  assumes "readlines env fn = Some (pre @ m # post)"
    and "is_marker (rstrip m)" and "marker_section (rstrip m) = n"
    and "\<forall>l \<in> set post. \<not> (is_marker (rstrip l) \<and> marker_section (rstrip l) = n)"
    and "parse_sectioned_file env fn config = Inr sections"
  shows "\<exists>data. map_of sections n = Some data
           \<and> render_data env
                (rstrip (join [newline] (map rstrip (takeWhile (\<lambda>l. \<not> is_marker (rstrip l)) post))))
                (fn @ '': Section '' @ n) config = Inr data"
proof -
  from assms(1,5) have "render_sections env fn config (fst (scan_lines (pre @ m # post) ([], None)))
      = Inr sections"
    by (auto simp: parse_sectioned_file_def split: sum.splits option.splits)
  moreover have "map_of (fst (scan_lines (pre @ m # post) ([], None))) n
      = Some (map rstrip (takeWhile (\<lambda>l. \<not> is_marker (rstrip l)) post))"
    using assms(2,3,4) by (rule scan_lines_last_marker)
  ultimately show ?thesis by (rule render_sections_lookup)
qed

text \<open>
  C10. Let the line \<open>m\<close> of a fragment be a marker of the section \<open>n\<close>, and let no later line
  be a marker of \<open>n\<close>. Then the scan, which cannot fail, binds \<open>n\<close> to the lines between \<open>m\<close>
  and the next marker, each stripped on the right, whatever the lines before \<open>m\<close> are: the
  lines after an earlier marker of \<open>n\<close> are gone. When the parse of the file returns, \<open>n\<close> is
  bound to the rendering of those lines (joined, and stripped on the right).
\<close>

theorem repeated_marker_last_wins:
  assumes "is_marker (rstrip m)" and "marker_section (rstrip m) = n"
    and "\<forall>l \<in> set post. \<not> (is_marker (rstrip l) \<and> marker_section (rstrip l) = n)"
  shows "map_of (fst (scan_lines (pre @ m # post) ([], None))) n
           = Some (map rstrip (takeWhile (\<lambda>l. \<not> is_marker (rstrip l)) post))
       \<and> (readlines env fn = Some (pre @ m # post)
            \<longrightarrow> parse_sectioned_file env fn config = Inr sections
            \<longrightarrow> (\<exists>data. map_of sections n = Some data
                   \<and> render_data env
                        (rstrip (join [newline]
                           (map rstrip (takeWhile (\<lambda>l. \<not> is_marker (rstrip l)) post))))
                        (fn @ '': Section '' @ n) config = Inr data))"
  using scan_lines_last_marker [OF assms, of pre "([], None)"]
    parsed_section_after_last_marker [OF _ assms, of env fn pre config sections]
  by blast

text \<open>The theorem at a fragment that starts with a \<open>headers\<close> section of one line, \<open>old\<close>,
  and has a second \<open>headers\<close> section of one line, \<open>new\<close>, further down.\<close>

theorem repeated_marker_last_wins_witness:
  "readlines (example_env [(''f'', [''/*| headers |*/'' @ [newline], ''old'' @ [newline]] @ example_fragment ''new'')]) ''f''
     = Some (([''/*| headers |*/'' @ [newline], ''old'' @ [newline]]
              @ map (\<lambda>s. ''/*| '' @ s @ '' |*/'' @ [newline]) (take 7 REQUIRED_COMPONENT_SECTIONS))
             @ (''/*| headers |*/'' @ [newline])
             # ((''new'' @ [newline])
                # map (\<lambda>s. ''/*| '' @ s @ '' |*/'' @ [newline]) (drop 8 REQUIRED_COMPONENT_SECTIONS)))
   \<and> parse_sectioned_file
       (example_env [(''f'', [''/*| headers |*/'' @ [newline], ''old'' @ [newline]] @ example_fragment ''new'')])
       ''f'' Map.empty
     = Inr ((''headers'', ''new'') # map (\<lambda>s. (s, [])) (remove1 ''headers'' REQUIRED_COMPONENT_SECTIONS))
   \<and> map_of ((''headers'', ''new'') # map (\<lambda>s. (s, [])) (remove1 ''headers'' REQUIRED_COMPONENT_SECTIONS))
       ''headers'' = Some ''new''"
proof -
  let ?lines = "[''/*| headers |*/'' @ [newline], ''old'' @ [newline]] @ example_fragment ''new''"
  let ?env = "example_env [(''f'', ?lines)]"
  let ?pre = "[''/*| headers |*/'' @ [newline], ''old'' @ [newline]]
              @ map (\<lambda>s. ''/*| '' @ s @ '' |*/'' @ [newline]) (take 7 REQUIRED_COMPONENT_SECTIONS)"
  let ?m = "''/*| headers |*/'' @ [newline]"
  let ?post = "(''new'' @ [newline])
                # map (\<lambda>s. ''/*| '' @ s @ '' |*/'' @ [newline]) (drop 8 REQUIRED_COMPONENT_SECTIONS)"
  let ?out = "(''headers'', ''new'') # map (\<lambda>s. (s, [])) (remove1 ''headers'' REQUIRED_COMPONENT_SECTIONS)"
  have h1: "readlines ?env ''f'' = Some (?pre @ ?m # ?post)" by code_simp
  have h2: "is_marker (rstrip ?m)" by code_simp
  have h3: "marker_section (rstrip ?m) = ''headers''" by code_simp
  have h4: "\<forall>l \<in> set ?post. \<not> (is_marker (rstrip l) \<and> marker_section (rstrip l) = ''headers'')"
    by code_simp
  have h5: "parse_sectioned_file ?env ''f'' Map.empty = Inr ?out" by code_simp
  have r: "render_data ?env
             (rstrip (join [newline] (map rstrip (takeWhile (\<lambda>l. \<not> is_marker (rstrip l)) ?post))))
             (''f'' @ '': Section '' @ ''headers'') Map.empty = Inr ''new''" by code_simp
  from repeated_marker_last_wins [OF h2 h3 h4, of ?pre ?env "''f''" Map.empty ?out] h1 h5 r
  have "map_of ?out ''headers'' = Some ''new''" by auto
  with h1 h5 show ?thesis by blast
qed

section \<open>Proofs and claims: skeletons and modules\<close>

lemma keys_dict_set:
  "map fst (dict_set k v d) = (if k \<in> fst ` set d then map fst d else map fst d @ [k])"
  by (induction d) force+

lemma distinct_dict_set: "distinct (map fst d) \<Longrightarrow> distinct (map fst (dict_set k v d))"
  by (simp add: keys_dict_set)

lemma keys_append_line: "map fst (append_line s line d) = map fst d"
  by (induction d) (auto simp: append_line_def)

lemma scan_lines_distinct:
  "distinct (map fst sections) \<Longrightarrow> distinct (map fst (fst (scan_lines ls (sections, current))))"
proof (induction ls arbitrary: sections current)
  case Nil
  then show ?case by simp
next
  case (Cons l ls)
  show ?case
  proof (cases "is_marker (rstrip l)")
    case True
    with Cons.IH [OF distinct_dict_set [OF Cons.prems]] show ?thesis by (simp add: Let_def)
  next
    case False
    show ?thesis
    proof (cases current)
      case None
      with False Cons show ?thesis by simp
    next
      case (Some s)
      have "distinct (map fst (append_line s (rstrip l) sections))"
        using Cons.prems by (simp add: keys_append_line)
      from Cons.IH [OF this] False Some show ?thesis by simp
    qed
  qed
qed

lemma render_sections_keys:
  "render_sections env fn config sections = Inr rendered \<Longrightarrow> map fst rendered = map fst sections"
proof (induction sections arbitrary: rendered)
  case Nil
  then show ?case by simp
next
  case (Cons kv sections)
  obtain k val where kv: "kv = (k, val)" by (cases kv)
  from Cons.prems obtain data rest where
    r: "render_sections env fn config sections = Inr rest" and out: "rendered = (k, data) # rest"
    unfolding kv by (auto split: sum.splits)
  from Cons.IH [OF r] out show ?case by (simp add: kv)
qed

lemma parse_sectioned_file_distinct:
  assumes "parse_sectioned_file env fn config = Inr sections"
  shows "distinct (map fst sections)"
proof -
  from assms obtain ls where
    "render_sections env fn config (fst (scan_lines ls ([], None))) = Inr sections"
    by (auto simp: parse_sectioned_file_def split: sum.splits option.splits)
  from render_sections_keys [OF this] scan_lines_distinct [of "[]" ls None]
  show ?thesis by simp
qed

lemma parse_distinct:
  assumes "parse env component topdir arg = Inr sections"
  shows "distinct (map fst sections)"
proof (cases component)
  case (Component n r c)
  with assms obtain fn config where "parse_sectioned_file env fn config = Inr sections"
    by (auto simp: parse_def Component_parse_def Let_def simp del: first_found.simps
        split: option.splits)
  then show ?thesis by (rule parse_sectioned_file_distinct)
next
  case (ArchitectureComponent n r c)
  with assms obtain fn config where "parse_sectioned_file env fn config = Inr sections"
    by (auto simp: parse_def ArchitectureComponent_parse_def simp del: first_found.simps
        split: option.splits pyvalue.splits)
  then show ?thesis by (rule parse_sectioned_file_distinct)
qed

lemma add_sections_lookup:
  "distinct (map fst sections) \<Longrightarrow>
   map_of (add_sections sections ms) n =
     (case map_of sections n of
        None \<Rightarrow> map_of ms n
      | Some contents \<Rightarrow> Some (blocks_of ms n @ [contents]))"
proof (induction sections arbitrary: ms)
  case Nil
  then show ?case by simp
next
  case (Cons kc sections)
  obtain k c where kc: "kc = (k, c)" by (cases kc)
  let ?ms = "case map_of ms k of None \<Rightarrow> dict_set k [c] ms
             | Some blocks \<Rightarrow> dict_set k (blocks @ [c]) ms"
  have ms: "map_of ?ms = (map_of ms)(k \<mapsto> blocks_of ms k @ [c])"
    by (simp add: map_of_dict_set blocks_of_def split: option.splits)
  from Cons.prems have d: "distinct (map fst sections)" and k: "map_of sections k = None"
    by (auto simp: kc map_of_eq_None_iff)
  have "map_of (add_sections (kc # sections) ms) n = map_of (add_sections sections ?ms) n"
    by (simp add: kc)
  also have "\<dots> = (case map_of sections n of None \<Rightarrow> map_of ?ms n
                     | Some contents \<Rightarrow> Some (blocks_of ?ms n @ [contents]))"
    by (rule Cons.IH [OF d])
  also have "\<dots> = (case map_of (kc # sections) n of None \<Rightarrow> map_of ms n
                     | Some contents \<Rightarrow> Some (blocks_of ms n @ [contents]))"
  proof (cases "n = k")
    case True
    with k show ?thesis by (simp add: kc ms)
  next
    case False
    then have "blocks_of ?ms n = blocks_of ms n" "map_of ?ms n = map_of ms n"
      unfolding blocks_of_def ms by simp_all
    with False show ?thesis by (simp add: kc split: option.splits)
  qed
  finally show ?case .
qed

lemma add_sections_distinct:
  "distinct (map fst ms) \<Longrightarrow> distinct (map fst (add_sections sections ms))"
proof (induction sections arbitrary: ms)
  case Nil
  then show ?case by simp
next
  case (Cons kc sections)
  obtain k c where kc: "kc = (k, c)" by (cases kc)
  show ?case unfolding kc
    using Cons.prems by (auto intro!: Cons.IH distinct_dict_set split: option.splits)
qed

lemma add_sections_blocks:
  assumes "distinct (map fst sections)"
  shows "blocks_of (add_sections sections ms) n =
           blocks_of ms n @ (case map_of sections n of None \<Rightarrow> [] | Some contents \<Rightarrow> [contents])"
  unfolding blocks_of_def add_sections_lookup [OF assms]
  by (simp add: blocks_of_def split: option.splits)

lemma add_sections_bound:
  assumes "distinct (map fst sections)"
    and "\<forall>n blocks. map_of ms n = Some blocks \<longrightarrow> blocks \<noteq> []"
  shows "\<forall>n blocks. map_of (add_sections sections ms) n = Some blocks \<longrightarrow> blocks \<noteq> []"
  using assms(2) unfolding add_sections_lookup [OF assms(1)]
  by (auto split: option.splits)

lemma collect_sections_blocks:
  assumes "collect_sections env topdir arch components ms = Inr module_sections"
    and "\<forall>n blocks. map_of ms n = Some blocks \<longrightarrow> blocks \<noteq> []"
    and "distinct (map fst ms)"
  shows "blocks_of module_sections name
           = blocks_of ms name @ List.map_filter (contribution env topdir arch name) components
       \<and> (\<forall>n blocks. map_of module_sections n = Some blocks \<longrightarrow> blocks \<noteq> [])
       \<and> distinct (map fst module_sections)
       \<and> (\<forall>c \<in> set components. \<exists>sections. parse env c topdir (Arch arch) = Inr sections)"
  using assms
proof (induction components arbitrary: ms)
  case Nil
  then show ?case by simp
next
  case (Cons c components)
  from Cons.prems(1) obtain sections where p: "parse env c topdir (Arch arch) = Inr sections"
    and rest: "collect_sections env topdir arch components (add_sections sections ms) = Inr module_sections"
    by (auto split: sum.splits)
  have d: "distinct (map fst sections)" using p by (rule parse_distinct)
  have b: "\<forall>n blocks. map_of (add_sections sections ms) n = Some blocks \<longrightarrow> blocks \<noteq> []"
    using d Cons.prems(2) by (rule add_sections_bound)
  have dd: "distinct (map fst (add_sections sections ms))"
    using Cons.prems(3) by (rule add_sections_distinct)
  from Cons.IH [OF rest b dd]
  have ih: "blocks_of module_sections name
           = blocks_of (add_sections sections ms) name
             @ List.map_filter (contribution env topdir arch name) components"
    and nonempty: "\<forall>n blocks. map_of module_sections n = Some blocks \<longrightarrow> blocks \<noteq> []"
    and dist: "distinct (map fst module_sections)"
    and all: "\<forall>c \<in> set components. \<exists>sections. parse env c topdir (Arch arch) = Inr sections"
    by blast+
  have "blocks_of module_sections name
      = blocks_of ms name @ List.map_filter (contribution env topdir arch name) (c # components)"
    unfolding ih add_sections_blocks [OF d]
    by (simp add: contribution_def p split: option.splits)
  with nonempty dist all p show ?case by auto
qed

lemma get_module_sections_blocks:
  assumes "get_module_sections env self topdir arch = Inr module_sections"
  shows "map_of module_sections name =
           (let blocks = List.map_filter (contribution env topdir arch name) (skel_components self)
            in if blocks = [] then None else Some blocks)
       \<and> (\<forall>c \<in> set (skel_components self). \<exists>sections. parse env c topdir (Arch arch) = Inr sections)"
proof -
  from assms have c: "collect_sections env topdir arch (skel_components self) [] = Inr module_sections"
    by (simp add: get_module_sections_def)
  have "\<forall>n blocks. map_of [] n = Some blocks \<longrightarrow> blocks \<noteq> ([] :: string list)" by simp
  from collect_sections_blocks [OF c this, of name]
  have b: "blocks_of module_sections name
           = List.map_filter (contribution env topdir arch name) (skel_components self)"
    and ne: "\<forall>n blocks. map_of module_sections n = Some blocks \<longrightarrow> blocks \<noteq> []"
    and all: "\<forall>c \<in> set (skel_components self). \<exists>sections. parse env c topdir (Arch arch) = Inr sections"
    by (simp_all add: blocks_of_def)
  have "map_of module_sections name =
           (let blocks = List.map_filter (contribution env topdir arch name) (skel_components self)
            in if blocks = [] then None else Some blocks)"
  proof (cases "map_of module_sections name")
    case None
    with b show ?thesis by (simp add: blocks_of_def)
  next
    case (Some blocks)
    with ne have "blocks \<noteq> []" by blast
    with Some b show ?thesis by (simp add: blocks_of_def)
  qed
  with all show ?thesis by blast
qed

lemma collect_sections_returns:
  "\<forall>c \<in> set components. \<exists>sections. parse env c topdir (Arch arch) = Inr sections \<Longrightarrow>
   \<exists>module_sections. collect_sections env topdir arch components ms = Inr module_sections"
  by (induction components arbitrary: ms) auto

text \<open>
  C7. When the \<open>parse\<close> of every component of the skeleton succeeds, \<open>get_module_sections\<close>
  returns a mapping that binds a section name to the list of the contents that the components
  have for that name: one entry for each component that has the section, in the order of the
  skeleton's list. A name that no component has is not bound.
\<close>

theorem get_module_sections_order:
  assumes "\<forall>c \<in> set (skel_components self). \<exists>sections. parse env c topdir (Arch arch) = Inr sections"
  shows "\<exists>module_sections. get_module_sections env self topdir arch = Inr module_sections
           \<and> (\<forall>name. map_of module_sections name =
                 (let blocks = List.map_filter (contribution env topdir arch name)
                                 (skel_components self)
                  in if blocks = [] then None else Some blocks))"
proof -
  from collect_sections_returns [OF assms, of "[]"]
  obtain module_sections where
    r: "get_module_sections env self topdir arch = Inr module_sections"
    by (auto simp: get_module_sections_def)
  from get_module_sections_blocks [OF r] r show ?thesis by blast
qed

text \<open>The theorem at a skeleton of a generic component \<open>x\<close> and an architecture-specific
  component \<open>y\<close>, whose \<open>headers\<close> sections are \<open>x\<close> and \<open>y\<close>.\<close>

theorem get_module_sections_order_witness:
  "parse (example_env [(''top/components/x.c'', example_fragment ''x''),
                       (''top/components/arm-y/arm-y.c'', example_fragment ''y'')])
       (Component ''x'' ''x'' Map.empty) ''top''
       (Arch \<lparr>arch_name = ''arm'', arch_configuration = Map.empty\<rparr>)
     = Inr (map (\<lambda>s. (s, if s = ''headers'' then ''x'' else [])) REQUIRED_COMPONENT_SECTIONS)
   \<and> parse (example_env [(''top/components/x.c'', example_fragment ''x''),
                       (''top/components/arm-y/arm-y.c'', example_fragment ''y'')])
       (ArchitectureComponent ''y'' ''y'' Map.empty) ''top''
       (Arch \<lparr>arch_name = ''arm'', arch_configuration = Map.empty\<rparr>)
     = Inr (map (\<lambda>s. (s, if s = ''headers'' then ''y'' else [])) REQUIRED_COMPONENT_SECTIONS)
   \<and> get_module_sections
       (example_env [(''top/components/x.c'', example_fragment ''x''),
                     (''top/components/arm-y/arm-y.c'', example_fragment ''y'')])
       \<lparr>skel_name = ''gatria'',
        skel_components = [Component ''x'' ''x'' Map.empty, ArchitectureComponent ''y'' ''y'' Map.empty],
        skel_configuration = Map.empty\<rparr>
       ''top'' \<lparr>arch_name = ''arm'', arch_configuration = Map.empty\<rparr>
     = Inr (map (\<lambda>s. (s, if s = ''headers'' then [''x'', ''y''] else [[], []]))
              REQUIRED_COMPONENT_SECTIONS)
   \<and> map_of (map (\<lambda>s. (s, if s = ''headers'' then [''x'', ''y''] else [[], []]))
              REQUIRED_COMPONENT_SECTIONS) ''headers''
     = Some [''x'', ''y'']"
proof -
  let ?env = "example_env [(''top/components/x.c'', example_fragment ''x''),
                     (''top/components/arm-y/arm-y.c'', example_fragment ''y'')]"
  let ?comps = "[Component ''x'' ''x'' Map.empty, ArchitectureComponent ''y'' ''y'' Map.empty]
                  :: string component list"
  let ?skel = "\<lparr>skel_name = ''gatria'', skel_components = ?comps, skel_configuration = Map.empty\<rparr>"
  let ?arch = "\<lparr>arch_name = ''arm'', arch_configuration = Map.empty\<rparr> :: string architecture"
  let ?ms = "map (\<lambda>s. (s, if s = ''headers'' then [''x'', ''y''] else [[], []]))
              REQUIRED_COMPONENT_SECTIONS"
  have p1: "parse ?env (Component ''x'' ''x'' Map.empty) ''top'' (Arch ?arch)
      = Inr (map (\<lambda>s. (s, if s = ''headers'' then ''x'' else [])) REQUIRED_COMPONENT_SECTIONS)"
    by code_simp
  have p2: "parse ?env (ArchitectureComponent ''y'' ''y'' Map.empty) ''top'' (Arch ?arch)
      = Inr (map (\<lambda>s. (s, if s = ''headers'' then ''y'' else [])) REQUIRED_COMPONENT_SECTIONS)"
    by code_simp
  have h0: "\<forall>c \<in> set (skel_components ?skel). \<exists>sections. parse ?env c ''top'' (Arch ?arch) = Inr sections"
    using p1 p2 by simp
  have h: "get_module_sections ?env ?skel ''top'' ?arch = Inr ?ms" by code_simp
  have v: "List.map_filter (contribution ?env ''top'' ?arch ''headers'') ?comps = [''x'', ''y'']"
    by code_simp
  from get_module_sections_order [OF h0] h v
  have "map_of ?ms ''headers'' = Some [''x'', ''y'']" by simp
  with p1 p2 h show ?thesis by blast
qed

lemma write_blocks_eq:
  "write_blocks blocks f = f @ concat (map (\<lambda>data. data @ [newline]) blocks)"
  by (induction blocks arbitrary: f) simp_all

lemma write_header_eq:
  "write_header sections names f = Inr header \<Longrightarrow>
   header = f @ concat (map (\<lambda>ss. concat (map (\<lambda>data. data @ [newline]) (blocks_of sections ss))) names)"
proof (induction names arbitrary: f)
  case Nil
  then show ?case by simp
next
  case (Cons ss names)
  from Cons.prems obtain blocks where b: "map_of sections ss = Some blocks"
    and r: "write_header sections names (write_blocks blocks f) = Inr header"
    by (auto split: option.splits)
  from Cons.IH [OF r] b show ?case by (simp add: write_blocks_eq blocks_of_def)
qed

text \<open>
  C8. When \<open>_render\<close> succeeds, the text of the header file is the line \<open>#ifndef G_H\<close>, the
  line \<open>#define G_H\<close>, every block of the public sections followed by a newline, a newline,
  and \<open>#endif /* G_H */\<close>, where \<open>G\<close> is the module name \<open>rtos-\<close> \<open>name\<close> in upper case with
  every \<open>-\<close> replaced by \<open>_\<close>.
\<close>

theorem header_include_guard:
  assumes "RtosModule_render env self = Inr files"
  shows "header_output files =
           ''#ifndef '' @ guard_name env self @ ''_H'' @ [newline]
           @ ''#define '' @ guard_name env self @ ''_H'' @ [newline]
           @ concat (map (\<lambda>ss. concat (map (\<lambda>data. data @ [newline]) (blocks_of (mod_sections self) ss)))
               header_sections)
           @ [newline] @ ''#endif /* '' @ guard_name env self @ ''_H */''
       \<and> guard_name env self =
           map (\<lambda>c. if c = CHR ''-'' then CHR ''_'' else c) (str_upper env (''rtos-'' @ mod_name self))"
proof -
  let ?g = "guard_name env self"
  from assms obtain header where
    h: "write_header (mod_sections self) header_sections
          (''#ifndef '' @ ?g @ ''_H'' @ [newline] @ ''#define '' @ ?g @ ''_H'' @ [newline]) = Inr header"
    and f: "header_output files = header @ [newline] @ ''#endif /* '' @ ?g @ ''_H */''"
    by (auto simp: RtosModule_render_def Let_def split: sum.splits)
  from write_header_eq [OF h] f show ?thesis
    by (simp add: guard_name_def rtos_module_name_def)
qed

text \<open>The theorem at the module \<open>gatria\<close>: the guard is \<open>RTOS_GATRIA_H\<close>.\<close>

theorem header_include_guard_witness:
  "RtosModule_render (example_env [])
       \<lparr>mod_name = ''gatria'',
        mod_arch = \<lparr>arch_name = ''arm'', arch_configuration = Map.empty\<rparr>,
        mod_sections = map (\<lambda>s. (s, if s = ''public_headers'' then [''#include <a.h>'', ''#include <b.h>''] else []))
                         REQUIRED_COMPONENT_SECTIONS,
        mod_python_file = ''components/gatria.py''\<rparr>
     = Inr \<lparr>source_output = replicate 10 newline,
            header_output = ''#ifndef RTOS_GATRIA_H'' @ [newline] @ ''#define RTOS_GATRIA_H'' @ [newline]
                @ ''#include <a.h>'' @ [newline] @ ''#include <b.h>'' @ [newline]
                @ [newline] @ ''#endif /* RTOS_GATRIA_H */'',
            config_output = xml_declaration @ ''<schema>'' @ [newline] @ ''</schema>''\<rparr>
   \<and> guard_name (example_env [])
       \<lparr>mod_name = ''gatria'',
        mod_arch = \<lparr>arch_name = ''arm'', arch_configuration = Map.empty\<rparr>,
        mod_sections = map (\<lambda>s. (s, if s = ''public_headers'' then [''#include <a.h>'', ''#include <b.h>''] else []))
                         REQUIRED_COMPONENT_SECTIONS,
        mod_python_file = ''components/gatria.py''\<rparr>
     = ''RTOS_GATRIA''"
proof -
  let ?env = "example_env [] :: string env"
  let ?m = "\<lparr>mod_name = ''gatria'',
        mod_arch = \<lparr>arch_name = ''arm'', arch_configuration = Map.empty\<rparr>,
        mod_sections = map (\<lambda>s. (s, if s = ''public_headers'' then [''#include <a.h>'', ''#include <b.h>''] else []))
                         REQUIRED_COMPONENT_SECTIONS,
        mod_python_file = ''components/gatria.py''\<rparr> :: string rtos_module"
  let ?files = "\<lparr>source_output = replicate 10 newline,
            header_output = ''#ifndef RTOS_GATRIA_H'' @ [newline] @ ''#define RTOS_GATRIA_H'' @ [newline]
                @ ''#include <a.h>'' @ [newline] @ ''#include <b.h>'' @ [newline]
                @ [newline] @ ''#endif /* RTOS_GATRIA_H */'',
            config_output = xml_declaration @ ''<schema>'' @ [newline] @ ''</schema>''\<rparr>"
  have h: "RtosModule_render ?env ?m = Inr ?files" by code_simp
  from header_include_guard [OF h]
  have "guard_name ?env ?m =
           map (\<lambda>c. if c = CHR ''-'' then CHR ''_'' else c) (str_upper ?env (''rtos-'' @ mod_name ?m))"
    by blast
  also have "\<dots> = ''RTOS_GATRIA''" by code_simp
  finally show ?thesis using h by blast
qed

section \<open>Proofs and claims: the schema merger\<close>

subsection \<open>Children by name\<close>

lemma find_child_Some: "find_child n cs = Some c \<Longrightarrow> c \<in> set cs \<and> name_of c = Some n"
  by (induction cs) (auto split: if_splits)

lemma find_child_distinct:
  "distinct (map name_of cs) \<Longrightarrow> c \<in> set cs \<Longrightarrow> name_of c = Some n \<Longrightarrow> find_child n cs = Some c"
  by (induction cs) force+

lemma find_child_None: "find_child n cs = None \<Longrightarrow> c \<in> set cs \<Longrightarrow> name_of c \<noteq> Some n"
  by (induction cs) (auto split: if_splits)

lemma wf_schema_children:
  "wf_schema a \<Longrightarrow> distinct (map name_of (children a))
     \<and> (\<forall>c \<in> set (children a). name_of c \<noteq> None \<and> wf_schema c)"
  by (cases a) simp

subsection \<open>The dictionary of the children of \<open>a\<close>\<close>

lemma index_children_lookup:
  assumes "\<forall>c \<in> set cs. name_of c \<noteq> None" and "distinct (map name_of cs)"
  shows "\<exists>idx. index_children i cs acc = Inr idx
           \<and> (\<forall>j < length cs. \<forall>n. name_of (cs ! j) = Some n \<longrightarrow> map_of idx n = Some (i + j))
           \<and> (\<forall>n. Some n \<notin> name_of ` set cs \<longrightarrow> map_of idx n = map_of acc n)"
  using assms
proof (induction cs arbitrary: i acc)
  case Nil
  then show ?case by simp
next
  case (Cons c cs)
  from Cons.prems obtain m where m: "name_of c = Some m" by auto
  have named: "\<forall>c \<in> set cs. name_of c \<noteq> None" and dist: "distinct (map name_of cs)"
    and fresh: "Some m \<notin> name_of ` set cs"
    using Cons.prems m by auto
  from Cons.IH [OF named dist, of "Suc i" "dict_set m i acc"]
  obtain idx where idx: "index_children (Suc i) cs (dict_set m i acc) = Inr idx"
    and hit: "\<forall>j < length cs. \<forall>n. name_of (cs ! j) = Some n \<longrightarrow> map_of idx n = Some (Suc i + j)"
    and miss: "\<forall>n. Some n \<notin> name_of ` set cs \<longrightarrow> map_of idx n = map_of (dict_set m i acc) n"
    by blast
  have r: "index_children i (c # cs) acc = Inr idx" using m idx by simp
  have a: "\<forall>j < length (c # cs). \<forall>n. name_of ((c # cs) ! j) = Some n \<longrightarrow> map_of idx n = Some (i + j)"
  proof (intro allI impI)
    fix j n assume j: "j < length (c # cs)" and n: "name_of ((c # cs) ! j) = Some n"
    show "map_of idx n = Some (i + j)"
    proof (cases j)
      case 0
      with n m have "n = m" by simp
      with miss fresh 0 show ?thesis by (simp add: map_of_dict_set)
    next
      case (Suc j')
      with j n hit show ?thesis by simp
    qed
  qed
  have b: "\<forall>n. Some n \<notin> name_of ` set (c # cs) \<longrightarrow> map_of idx n = map_of acc n"
  proof (intro allI impI)
    fix n assume n: "Some n \<notin> name_of ` set (c # cs)"
    then have "n \<noteq> m" "Some n \<notin> name_of ` set cs" using m by auto
    with miss show "map_of idx n = map_of acc n" by (simp add: map_of_dict_set)
  qed
  from r a b show ?case by blast
qed

lemma index_children_ok:
  assumes "\<forall>c \<in> set cs. name_of c \<noteq> None" and "distinct (map name_of cs)"
  obtains idx where "index_children 0 cs [] = Inr idx"
    and "\<And>n i. map_of idx n = Some i \<Longrightarrow> i < length cs \<and> find_child n cs = Some (cs ! i)"
    and "\<And>n. map_of idx n = None \<Longrightarrow> find_child n cs = None"
proof -
  from index_children_lookup [OF assms, of 0 "[]"]
  obtain idx where idx: "index_children 0 cs [] = Inr idx"
    and hit: "\<forall>j < length cs. \<forall>n. name_of (cs ! j) = Some n \<longrightarrow> map_of idx n = Some j"
    and miss: "\<forall>n. Some n \<notin> name_of ` set cs \<longrightarrow> map_of idx n = None"
    by auto
  have a: "i < length cs \<and> find_child n cs = Some (cs ! i)" if "map_of idx n = Some i" for n i
  proof -
    from that miss have "Some n \<in> name_of ` set cs" by force
    then obtain j where j: "j < length cs" "name_of (cs ! j) = Some n"
      by (auto simp: in_set_conv_nth)
    with hit that have "i = j" by auto
    with j assms(2) show ?thesis by (auto intro: find_child_distinct)
  qed
  have b: "find_child n cs = None" if "map_of idx n = None" for n
  proof (rule ccontr)
    assume "find_child n cs \<noteq> None"
    then obtain c where "find_child n cs = Some c" by auto
    from find_child_Some [OF this] obtain j where "j < length cs" "name_of (cs ! j) = Some n"
      by (auto simp: in_set_conv_nth)
    with hit that show False by auto
  qed
  from idx a b show ?thesis by (rule that)
qed

subsection \<open>The slots\<close>

lemma initial_slots:
  "i < length cs \<Longrightarrow> map_of (zip (map Some [0..<length cs]) cs) (Some i) = Some (cs ! i)"
  using map_of_zip_nth [of "map Some [0..<length cs]" cs i] by (simp add: distinct_map)

lemma slots_append: "map_of (slots @ [(None, e)]) (Some j) = map_of slots (Some j)"
  by (induction slots) auto

lemma slots_update:
  "j \<noteq> i \<Longrightarrow>
   map_of (map (\<lambda>(t, e). if t = Some i then (t, a') else (t, e)) slots) (Some j) = map_of slots (Some j)"
  by (induction slots) auto

lemma slots_remove:
  "j \<noteq> i \<Longrightarrow> map_of (filter (\<lambda>(t, e). t \<noteq> Some i) slots) (Some j) = map_of slots (Some j)"
  by (induction slots) auto

lemma slots_present: "map_of slots (Some i) = Some e \<Longrightarrow> Some i \<in> fst ` set slots"
  by (force dest: map_of_SomeD)

subsection \<open>Positions\<close>

lemma disagree_Cons:
  "disagree a b (n # rest) \<longleftrightarrow>
     (\<exists>ac bc. find_child n (children a) = Some ac \<and> find_child n (children b) = Some bc
        \<and> (if rest = [] then (children ac = []) \<noteq> (children bc = []) else disagree ac bc rest))"
  by (auto simp: disagree_def split: option.splits)

lemma disagree_nonempty: "disagree a b pos \<Longrightarrow> pos \<noteq> []"
  by (simp add: disagree_def)

lemma leaf_no_disagree:
  "children a = [] \<or> children b = [] \<Longrightarrow> \<not> disagree a b pos"
  by (cases pos) (auto simp: disagree_def split: option.splits)

lemma dotted_butlast:
  "pos \<noteq> [] \<Longrightarrow> dotted path (butlast (n # pos)) = dotted (path @ ''.'' @ n) (butlast pos)"
  by simp

lemma merge_children_spec:
  assumes idx_hit: "\<And>n i. map_of idx n = Some i \<Longrightarrow> i < length orig \<and> find_child n orig = Some (orig ! i)"
    and idx_miss: "\<And>n. map_of idx n = None \<Longrightarrow> find_child n orig = None"
    and wf_orig: "\<forall>c \<in> set orig. wf_schema c"
  shows "\<forall>bc \<in> set bs. name_of bc \<noteq> None \<and> wf_schema bc \<Longrightarrow>
     distinct (map name_of bs) \<Longrightarrow>
     \<forall>bc \<in> set bs. \<forall>ac p. wf_schema ac \<longrightarrow> merge_spec ac bc p \<Longrightarrow>
     \<forall>bc \<in> set bs. \<forall>n i. name_of bc = Some n \<longrightarrow> map_of idx n = Some i
        \<longrightarrow> map_of slots (Some i) = Some (orig ! i) \<Longrightarrow>
     (case merge_children orig idx path bs slots of
        Inl e \<Rightarrow>
          \<exists>bc \<in> set bs. \<exists>n ac. name_of bc = Some n \<and> find_child n orig = Some ac
            \<and> ((children ac = []) \<noteq> (children bc = []) \<and> e = SchemaConflict path n
               \<or> (\<exists>pos. disagree ac bc pos
                     \<and> e = SchemaConflict (dotted (path @ ''.'' @ n) (butlast pos)) (last pos)))
      | Inr slots' \<Rightarrow>
          \<forall>bc \<in> set bs. \<forall>n ac. name_of bc = Some n \<longrightarrow> find_child n orig = Some ac
            \<longrightarrow> (children ac = []) = (children bc = []) \<and> (\<forall>pos. \<not> disagree ac bc pos))"
proof (induction bs arbitrary: slots)
  case Nil
  then show ?case by simp
next
  case (Cons bc bs)
  from Cons.prems(1) obtain n where n: "name_of bc = Some n" and wf_bc: "wf_schema bc" by auto
  have named: "\<forall>bc \<in> set bs. name_of bc \<noteq> None \<and> wf_schema bc"
    and dist: "distinct (map name_of bs)"
    and specs: "\<forall>bc \<in> set bs. \<forall>ac p. wf_schema ac \<longrightarrow> merge_spec ac bc p"
    using Cons.prems(1,2,3) by auto
  have fresh: "\<forall>bc' \<in> set bs. name_of bc' \<noteq> Some n"
  proof
    fix bc' assume "bc' \<in> set bs"
    then have "name_of bc' \<in> set (map name_of bs)" by simp
    moreover have "name_of bc \<notin> set (map name_of bs)" using Cons.prems(2) by simp
    ultimately show "name_of bc' \<noteq> Some n" using n by metis
  qed
  text \<open>A later child of \<open>b\<close> has another name, hence another slot.\<close>
  have other: "i' \<noteq> i" if "bc' \<in> set bs" "name_of bc' = Some n'" "map_of idx n' = Some i'"
    "map_of idx n = Some i" for bc' n' i' i
  proof
    assume e: "i' = i"
    from idx_hit [OF that(3)] have "find_child n' orig = Some (orig ! i')" by simp
    from find_child_Some [OF this] have a: "name_of (orig ! i') = Some n'" by simp
    from idx_hit [OF that(4)] have "find_child n orig = Some (orig ! i)" by simp
    from find_child_Some [OF this] have b: "name_of (orig ! i) = Some n" by simp
    from a b have "n' = n" unfolding e by simp
    with fresh that(1,2) show False by auto
  qed
  let ?ok = "\<lambda>slots'. \<forall>bc' \<in> set bs. \<forall>n' i'. name_of bc' = Some n' \<longrightarrow> map_of idx n' = Some i'
        \<longrightarrow> map_of slots' (Some i') = Some (orig ! i')"
  have keep: "?ok slots" using Cons.prems(4) by simp
  let ?goal_rest = "\<lambda>slots'.
     (case merge_children orig idx path bs slots' of
        Inl e \<Rightarrow>
          \<exists>bc \<in> set bs. \<exists>n ac. name_of bc = Some n \<and> find_child n orig = Some ac
            \<and> ((children ac = []) \<noteq> (children bc = []) \<and> e = SchemaConflict path n
               \<or> (\<exists>pos. disagree ac bc pos
                     \<and> e = SchemaConflict (dotted (path @ ''.'' @ n) (butlast pos)) (last pos)))
      | Inr slots'' \<Rightarrow>
          \<forall>bc \<in> set bs. \<forall>n ac. name_of bc = Some n \<longrightarrow> find_child n orig = Some ac
            \<longrightarrow> (children ac = []) = (children bc = []) \<and> (\<forall>pos. \<not> disagree ac bc pos))"
  have rest: "?goal_rest slots'" if "?ok slots'" for slots'
    using Cons.IH [OF named dist specs that] .
  text \<open>When the head is in order, the result is that of the rest.\<close>
  have lift: ?case
    if eq: "merge_children orig idx path (bc # bs) slots = merge_children orig idx path bs slots'"
      and ok: "?ok slots'"
      and head: "\<forall>ac. find_child n orig = Some ac
                  \<longrightarrow> (children ac = []) = (children bc = []) \<and> (\<forall>pos. \<not> disagree ac bc pos)"
    for slots'
  proof (cases "merge_children orig idx path bs slots'")
    case (Inl e)
    with rest [OF ok] eq show ?thesis by auto
  next
    case (Inr s)
    with rest [OF ok] eq head n show ?thesis by auto
  qed
  show ?case
  proof (cases "map_of idx n")
    case None
    have eq: "merge_children orig idx path (bc # bs) slots
        = merge_children orig idx path bs (slots @ [(None, bc)])"
      using n None by simp
    have ok: "?ok (slots @ [(None, bc)])" using keep by (simp add: slots_append)
    have head: "\<forall>ac. find_child n orig = Some ac
                  \<longrightarrow> (children ac = []) = (children bc = []) \<and> (\<forall>pos. \<not> disagree ac bc pos)"
      using idx_miss [OF None] by simp
    from eq ok head show ?thesis by (rule lift)
  next
    case (Some i)
    from idx_hit [OF Some] have i: "i < length orig" and ac: "find_child n orig = Some (orig ! i)"
      by simp_all
    let ?ac = "orig ! i"
    have cur: "map_of slots (Some i) = Some ?ac" using Cons.prems(4) n Some by simp
    have wf_ac: "wf_schema ?ac" using wf_orig i by simp
    show ?thesis
    proof (cases "(children bc = []) \<noteq> (children ?ac = [])")
      case True
      then have "merge_children orig idx path (bc # bs) slots = Inl (SchemaConflict path n)"
        using n Some cur by simp
      moreover have "(children ?ac = []) \<noteq> (children bc = [])" using True by auto
      ultimately show ?thesis using n ac by auto
    next
      case same: False
      show ?thesis
      proof (cases "children bc \<noteq> [] \<and> children ?ac \<noteq> []")
        case True
        from Cons.prems(3) wf_ac have spec: "merge_spec ?ac bc (path @ ''.'' @ n)" by simp
        show ?thesis
        proof (cases "merge_schema_entries ?ac bc (path @ ''.'' @ n)")
          case (Inl e)
          then have "merge_children orig idx path (bc # bs) slots = Inl e"
            using n Some cur same True by simp
          moreover from spec Inl obtain pos where "disagree ?ac bc pos"
            "e = SchemaConflict (dotted (path @ ''.'' @ n) (butlast pos)) (last pos)"
            by (auto simp: merge_spec_def)
          ultimately show ?thesis using n ac by auto
        next
          case (Inr a')
          let ?slots = "map (\<lambda>(t, e). if t = Some i then (t, a') else (t, e)) slots"
          have eq: "merge_children orig idx path (bc # bs) slots
              = merge_children orig idx path bs ?slots"
            using n Some cur same True Inr by simp
          have ok: "?ok ?slots"
          proof (intro ballI allI impI)
            fix bc' n' i' assume h: "bc' \<in> set bs" "name_of bc' = Some n'" "map_of idx n' = Some i'"
            from other [OF h Some] have "i' \<noteq> i" .
            with keep h show "map_of ?slots (Some i') = Some (orig ! i')"
              by (simp add: slots_update)
          qed
          have head: "\<forall>ac. find_child n orig = Some ac
                  \<longrightarrow> (children ac = []) = (children bc = []) \<and> (\<forall>pos. \<not> disagree ac bc pos)"
            using spec Inr same ac by (auto simp: merge_spec_def)
          from eq ok head show ?thesis by (rule lift)
        qed
      next
        case False
        with same have leaves: "children bc = []" "children ?ac = []" by auto
        let ?slots = "filter (\<lambda>(t, e). t \<noteq> Some i) slots @ [(None, bc)]"
        have eq: "merge_children orig idx path (bc # bs) slots
            = merge_children orig idx path bs ?slots"
          using n Some cur leaves slots_present [OF cur] by simp
        have ok: "?ok ?slots"
        proof (intro ballI allI impI)
          fix bc' n' i' assume h: "bc' \<in> set bs" "name_of bc' = Some n'" "map_of idx n' = Some i'"
          from other [OF h Some] have "i' \<noteq> i" .
          with keep h show "map_of ?slots (Some i') = Some (orig ! i')"
            by (simp add: slots_append slots_remove)
        qed
        have head: "\<forall>ac. find_child n orig = Some ac
                  \<longrightarrow> (children ac = []) = (children bc = []) \<and> (\<forall>pos. \<not> disagree ac bc pos)"
          using leaves ac leaf_no_disagree [of ?ac bc] by auto
        from eq ok head show ?thesis by (rule lift)
      qed
    qed
  qed
qed

lemma merge_spec_all: "wf_schema b \<Longrightarrow> \<forall>a pth. wf_schema a \<longrightarrow> merge_spec a b pth"
proof (induction b)
  case (Element t at tx cs)
  let ?b = "Element t at tx cs"
  show ?case
  proof (intro allI impI)
  fix a pth assume wfa: "wf_schema a"
  from wf_schema_children [OF wfa]
  have dist_a: "distinct (map name_of (children a))"
    and named_a: "\<forall>c \<in> set (children a). name_of c \<noteq> None"
    and wf_a: "\<forall>c \<in> set (children a). wf_schema c" by auto
  from Element.prems
  have dist_b: "distinct (map name_of cs)"
    and named_b: "\<forall>bc \<in> set cs. name_of bc \<noteq> None \<and> wf_schema bc" by auto
  have specs: "\<forall>bc \<in> set cs. \<forall>ac p. wf_schema ac \<longrightarrow> merge_spec ac bc p"
    using Element.IH named_b by blast
  from index_children_ok [OF named_a dist_a]
  obtain idx where idx: "index_children 0 (children a) [] = Inr idx"
    and hit: "\<And>n i. map_of idx n = Some i \<Longrightarrow>
                i < length (children a) \<and> find_child n (children a) = Some (children a ! i)"
    and miss: "\<And>n. map_of idx n = None \<Longrightarrow> find_child n (children a) = None"
    by blast
  let ?slots = "zip (map Some [0..<length (children a)]) (children a)"
  have init: "\<forall>bc \<in> set cs. \<forall>n i. name_of bc = Some n \<longrightarrow> map_of idx n = Some i
        \<longrightarrow> map_of ?slots (Some i) = Some (children a ! i)"
    using hit initial_slots by blast
  note loop = merge_children_spec [of idx "children a" cs ?slots pth,
      OF hit miss wf_a named_b dist_b specs init]
  show "merge_spec a ?b pth"
  proof (cases "merge_children (children a) idx pth cs ?slots")
    case (Inl e)
    then have res: "merge_schema_entries a ?b pth = Inl e"
      by (simp add: merge_schema_entries.simps idx)
    from loop Inl obtain bc n ac where bc: "bc \<in> set cs" "name_of bc = Some n"
      and ac: "find_child n (children a) = Some ac"
      and why: "(children ac = []) \<noteq> (children bc = []) \<and> e = SchemaConflict pth n
          \<or> (\<exists>pos. disagree ac bc pos
                \<and> e = SchemaConflict (dotted (pth @ ''.'' @ n) (butlast pos)) (last pos))"
      by auto
    have fb: "find_child n (children ?b) = Some bc"
      using dist_b bc by (simp add: find_child_distinct)
    from why have "\<exists>pos. disagree a ?b pos \<and> e = SchemaConflict (dotted pth (butlast pos)) (last pos)"
    proof
      assume "(children ac = []) \<noteq> (children bc = []) \<and> e = SchemaConflict pth n"
      with ac fb have "disagree a ?b [n]" "e = SchemaConflict (dotted pth (butlast [n])) (last [n])"
        by (simp_all add: disagree_Cons)
      then show ?thesis by blast
    next
      assume "\<exists>pos. disagree ac bc pos
                \<and> e = SchemaConflict (dotted (pth @ ''.'' @ n) (butlast pos)) (last pos)"
      then obtain pos where pos: "disagree ac bc pos"
        "e = SchemaConflict (dotted (pth @ ''.'' @ n) (butlast pos)) (last pos)" by blast
      from pos(1) have ne: "pos \<noteq> []" by (rule disagree_nonempty)
      with ac fb pos(1) have "disagree a ?b (n # pos)" by (simp add: disagree_Cons)
      moreover have "e = SchemaConflict (dotted pth (butlast (n # pos))) (last (n # pos))"
        using pos(2) ne by simp
      ultimately show ?thesis by blast
    qed
    with res show ?thesis by (simp add: merge_spec_def)
  next
    case (Inr slots)
    then have res: "merge_schema_entries a ?b pth
        = Inr (Element (tag a) (attrib a) (etext a) (map snd slots))"
      by (simp add: merge_schema_entries.simps idx)
    have "\<not> disagree a ?b pos" for pos
    proof
      assume d: "disagree a ?b pos"
      then obtain n rest where pos: "pos = n # rest" by (cases pos) (auto simp: disagree_def)
      from d [unfolded pos disagree_Cons] obtain ac bc where
        ac: "find_child n (children a) = Some ac" and fb: "find_child n (children ?b) = Some bc"
        and c: "if rest = [] then (children ac = []) \<noteq> (children bc = []) else disagree ac bc rest"
        by blast
      from find_child_Some [OF fb] have bc: "bc \<in> set cs" "name_of bc = Some n" by simp_all
      from loop Inr bc ac have "(children ac = []) = (children bc = [])" "\<not> disagree ac bc rest"
        by auto
      with c show False by (auto split: if_splits)
    qed
    with res show ?thesis by (simp add: merge_spec_def)
  qed
  qed
qed

lemma merge_spec_holds: "wf_schema a \<Longrightarrow> wf_schema b \<Longrightarrow> merge_spec a b path"
  using merge_spec_all by blast

text \<open>
  C6. Let every entry of the schemas \<open>a\<close> and \<open>b\<close> have a name, and let the names of
  siblings be distinct. Then \<open>_merge_schema_entries(a, b, path)\<close> fails if and only if the two
  trees disagree at a position: both have an entry there, and exactly one of the two entries
  has children. When it fails, the error is the structural conflict that names such a
  position, \<open>path\<close> followed by the dotted names; otherwise the merge returns.
\<close>

theorem merge_conflict_iff_disagreement:
  assumes "wf_schema a" and "wf_schema b"
  shows "((\<exists>e. merge_schema_entries a b path = Inl e) \<longleftrightarrow> (\<exists>pos. disagree a b pos))
       \<and> (\<forall>e. merge_schema_entries a b path = Inl e \<longrightarrow>
            (\<exists>pos. disagree a b pos \<and> e = SchemaConflict (dotted path (butlast pos)) (last pos)))"
  using merge_spec_holds [OF assms, of path]
  by (cases "merge_schema_entries a b path") (auto simp: merge_spec_def)

text \<open>The theorem at two schemas that disagree at \<open>a.x\<close>: the error names \<open>.a\<close> and
  \<open>x\<close>.\<close>

theorem merge_conflict_iff_disagreement_witness:
  "wf_schema example_schema_a \<and> wf_schema example_schema_b
   \<and> merge_schema_entries example_schema_a example_schema_b [] = Inl (SchemaConflict ''.a'' ''x'')
   \<and> disagree example_schema_a example_schema_b [''a'', ''x'']
   \<and> (\<exists>pos. disagree example_schema_a example_schema_b pos
          \<and> SchemaConflict ''.a'' ''x'' = SchemaConflict (dotted [] (butlast pos)) (last pos))"
proof -
  have h1: "wf_schema example_schema_a" by code_simp
  have h2: "wf_schema example_schema_b" by code_simp
  have h3: "merge_schema_entries example_schema_a example_schema_b [] = Inl (SchemaConflict ''.a'' ''x'')"
    by code_simp
  have h4: "disagree example_schema_a example_schema_b [''a'', ''x'']" by code_simp
  from merge_conflict_iff_disagreement [OF h1 h2, of "[]"] h3
  have "\<exists>pos. disagree example_schema_a example_schema_b pos
          \<and> SchemaConflict ''.a'' ''x'' = SchemaConflict (dotted [] (butlast pos)) (last pos)"
    by simp
  with h1 h2 h3 h4 show ?thesis by blast
qed

end
